theory Spec2Isabelle
  imports Complex_Main "HOL-Library.Word" "HOL-Library.Signed_Division"
begin

unbundle bit_operations_syntax

section \<open>Machine types of the Go program\<close>

text \<open>
  Go's \<open>int\<close> is taken at its 64-bit width (the platforms the repository names are
  64-bit), \<open>int16\<close>, \<open>int64\<close> and \<open>byte\<close> at theirs. Arithmetic on them wraps, comparisons
  of the signed types are the signed ones (\<open><s\<close>).

  A finite \<open>float64\<close> is the real number it stands for; infinities and NaN are not part
  of the model. The arithmetic of processAudioData is the arithmetic of \<open>float64\<close>: each
  operation gives the exact result rounded to the nearest \<open>float64\<close>, ties to the even
  significand (\<open>float64_round\<close>), and no two operations are fused. A result beyond the
  largest finite \<open>float64\<close> is an infinity in Go and stays the rounded real here; the
  theorem on processAudioData keeps the multiplier small enough that no such result
  arises. In calculateOptimalBufferSize the one product \<open>SampleRate \<times> 0.02\<close> is taken
  exactly: only its integer part is used.
\<close>

type_synonym go_int = "64 word"
type_synonym int16 = "16 word"
type_synonym int64 = "64 word"
type_synonym byte = "8 word"
type_synonym float64 = real

text \<open>
  Rounding to \<open>float64\<close>. A number \<open>x\<close> with \<open>2^e \<le> |x| < 2^(e+1)\<close> (\<open>e\<close> is its binade) is
  rounded to a multiple of \<open>2^(e-52)\<close>; below \<open>2^-1022\<close> the multiples of \<open>2^-1074\<close> are the
  subnormal numbers.
\<close>

function binade :: "real \<Rightarrow> int" where
  "binade x =
     (if 2 \<le> x then binade (x / 2) + 1
      else if 0 < x \<and> x < 1 then binade (x * 2) - 1
      else 0)"
  by pat_completeness auto

termination
proof (relation "measure (\<lambda>x. nat \<lfloor>\<bar>log 2 x\<bar>\<rfloor> + (if x < 1 then 1 else 0))")
  show "wf (measure (\<lambda>x. nat \<lfloor>\<bar>log 2 x\<bar>\<rfloor> + (if x < 1 then 1 else 0)))" by simp
next
  fix x :: real
  assume x: "2 \<le> x"
  then have l: "log 2 (x / 2) = log 2 x - 1" by (simp add: log_divide)
  have "1 \<le> log 2 x" using x by (simp add: le_log_iff)
  then have "\<lfloor>\<bar>log 2 x - 1\<bar>\<rfloor> = \<lfloor>\<bar>log 2 x\<bar>\<rfloor> - 1" "1 \<le> \<lfloor>\<bar>log 2 x\<bar>\<rfloor>" by linarith+
  then have "nat \<lfloor>\<bar>log 2 (x / 2)\<bar>\<rfloor> < nat \<lfloor>\<bar>log 2 x\<bar>\<rfloor>"
    unfolding l by linarith
  moreover have "\<not> x / 2 < 1" "\<not> x < 1" using x by simp_all
  ultimately show "(x / 2, x) \<in> measure (\<lambda>x. nat \<lfloor>\<bar>log 2 x\<bar>\<rfloor> + (if x < 1 then 1 else 0))"
    unfolding in_measure by (simp only: if_False add_0_right)
next
  fix x :: real
  assume x: "\<not> 2 \<le> x" "0 < x \<and> x < 1"
  then have l: "log 2 (x * 2) = log 2 x + 1" by (simp add: log_mult)
  have neg: "log 2 x < 0" using x by simp
  show "(x * 2, x) \<in> measure (\<lambda>x. nat \<lfloor>\<bar>log 2 x\<bar>\<rfloor> + (if x < 1 then 1 else 0))"
  proof (cases "x * 2 < 1")
    case True
    then have "log 2 (x * 2) < 0" using x by simp
    then have "log 2 x < - 1" unfolding l by simp
    then have "\<lfloor>\<bar>log 2 x + 1\<bar>\<rfloor> = \<lfloor>\<bar>log 2 x\<bar>\<rfloor> - 1" "1 \<le> \<lfloor>\<bar>log 2 x\<bar>\<rfloor>" by linarith+
    then have "nat \<lfloor>\<bar>log 2 (x * 2)\<bar>\<rfloor> < nat \<lfloor>\<bar>log 2 x\<bar>\<rfloor>"
      unfolding l by linarith
    moreover have "x < 1" using x by simp
    ultimately show ?thesis
      unfolding in_measure using True by (simp only: if_True)
  next
    case False
    then have "0 \<le> log 2 (x * 2)" using x by simp
    moreover have "log 2 (x * 2) < 1" using x by (simp add: log_less_iff)
    ultimately have "\<lfloor>\<bar>log 2 (x * 2)\<bar>\<rfloor> = 0" by linarith
    then have "nat \<lfloor>\<bar>log 2 (x * 2)\<bar>\<rfloor> = 0" by (simp only: nat_0)
    moreover have "x < 1" using x by simp
    ultimately show ?thesis
      unfolding in_measure using False by (simp only: if_True if_False)
  qed
qed

text \<open>The defining equation of \<open>binade\<close> is applied by hand, not by the simplifier.\<close>

declare binade.simps [simp del]

definition round_half_even :: "real \<Rightarrow> int" where
  "round_half_even y =
     (let f = \<lfloor>y\<rfloor>; r = y - of_int f
      in if r < 1 / 2 then f else if 1 / 2 < r then f + 1 else if even f then f else f + 1)"

definition float64_ulp_exponent :: "real \<Rightarrow> int" where
  "float64_ulp_exponent x = max (binade \<bar>x\<bar>) (- 1022) - 52"

definition float64_round :: "real \<Rightarrow> float64" where
  "float64_round x =
     (if x = 0 then 0
      else of_int (round_half_even (x / 2 powi float64_ulp_exponent x))
             * 2 powi float64_ulp_exponent x)"

definition fmul :: "float64 \<Rightarrow> float64 \<Rightarrow> float64" where
  "fmul x y = float64_round (x * y)"

definition fadd :: "float64 \<Rightarrow> float64 \<Rightarrow> float64" where
  "fadd x y = float64_round (x + y)"

definition fsub :: "float64 \<Rightarrow> float64 \<Rightarrow> float64" where
  "fsub x y = float64_round (x - y)"

text \<open>
  Conversion of a float to an integer type drops the fraction (towards zero). Go leaves
  the result open when the value does not fit; the model keeps the low bits there, and
  no theorem below relies on a conversion out of range.
\<close>

definition float_trunc :: "float64 \<Rightarrow> int" where
  "float_trunc x = (if 0 \<le> x then \<lfloor>x\<rfloor> else \<lceil>x\<rceil>)"

definition go_int_of_float :: "float64 \<Rightarrow> go_int" where
  "go_int_of_float x = word_of_int (float_trunc x)"

definition go_int16_of_float :: "float64 \<Rightarrow> int16" where
  "go_int16_of_float x = word_of_int (float_trunc x)"

text \<open>\<open>int16(x)\<close> on an \<open>int\<close> keeps the low 16 bits.\<close>

definition go_int16 :: "go_int \<Rightarrow> int16" where
  "go_int16 x = word_of_int (sint x)"

text \<open>\<open>byte(x)\<close> on an \<open>int\<close> or an \<open>int16\<close> keeps the low 8 bits.\<close>

definition go_byte :: "'a::len word \<Rightarrow> byte" where
  "go_byte x = ucast x"

text \<open>
  Integer division truncates towards zero. (Division by zero panics in Go; the only
  divisor in this program is the constant 8.)
\<close>

definition go_div :: "go_int \<Rightarrow> go_int \<Rightarrow> go_int" where
  "go_div a b = word_of_int (sint a sdiv sint b)"

section \<open>Configuration (config.go)\<close>

record AudioConfig =
  SampleRate :: float64
  Channels :: go_int
  BufferSize :: go_int

record ProcessingConfig =
  SilenceDetection :: bool
  SilenceThreshold :: go_int
  VolumeMultiplier :: float64
  ClipThreshold :: int16

record Config =
  Audio :: AudioConfig
  Processing :: ProcessingConfig

text \<open>The configuration setDefaults gives when the file sets nothing.\<close>

definition setDefaults :: Config where
  "setDefaults =
     \<lparr>Audio = \<lparr>SampleRate = 48000, Channels = 2, BufferSize = 0\<rparr>,
      Processing = \<lparr>SilenceDetection = True, SilenceThreshold = 1000,
                    VolumeMultiplier = 1.0, ClipThreshold = 28000\<rparr>\<rparr>"

section \<open>Audio capture (audio.go)\<close>

subsection \<open>calculateOptimalBufferSize\<close>

text \<open>
  The loop \<open>for powerOfTwo < targetSamples { powerOfTwo <<= 1 }\<close>. On 64-bit integers the
  shift wraps, so the loop need not end; not returning is the value \<open>None\<close>.
\<close>

partial_function (option) powerOfTwo_loop :: "go_int \<Rightarrow> go_int \<Rightarrow> go_int option" where
  "powerOfTwo_loop powerOfTwo targetSamples =
     (if powerOfTwo <s targetSamples
      then powerOfTwo_loop (push_bit 1 powerOfTwo) targetSamples
      else Some powerOfTwo)"

definition calculateOptimalBufferSize :: "Config \<Rightarrow> go_int option" where
  "calculateOptimalBufferSize config =
     (if 0 <s BufferSize (Audio config)
      then Some (BufferSize (Audio config) * Channels (Audio config))
      else
        let targetLatency = 0.02;
            targetSamples = go_int_of_float (SampleRate (Audio config) * targetLatency)
        in case powerOfTwo_loop 1 targetSamples of
             None \<Rightarrow> None
           | Some powerOfTwo \<Rightarrow>
               let powerOfTwo = (if powerOfTwo <s 256 then 256 else powerOfTwo);
                   powerOfTwo = (if 2048 <s powerOfTwo then 2048 else powerOfTwo)
               in Some (powerOfTwo * Channels (Audio config)))"

subsection \<open>isSilence\<close>

fun isSilence_loop :: "int16 \<Rightarrow> int16 list \<Rightarrow> bool" where
  "isSilence_loop threshold [] = True"
| "isSilence_loop threshold (b # buffer) =
     (if threshold <s b \<or> b <s - threshold then False
      else isSilence_loop threshold buffer)"

definition isSilence :: "Config \<Rightarrow> int16 list \<Rightarrow> bool" where
  "isSilence config buffer =
     (let threshold = go_int16 (SilenceThreshold (Processing config))
      in isSilence_loop threshold buffer)"

subsection \<open>processAudioData\<close>

text \<open>
  The body of the loop for one sample. \<open>float64(buffer[i])\<close>, \<open>float64(ClipThreshold)\<close> and
  the negation are exact; the constant \<open>0.3\<close> is the \<open>float64\<close> nearest to it.
\<close>

definition processSample :: "Config \<Rightarrow> int16 \<Rightarrow> int16" where
  "processSample config b =
     (let clip = real_of_int (sint (ClipThreshold (Processing config)));
          sample = real_of_int (sint b);
          sample = fmul sample (VolumeMultiplier (Processing config));
          sample =
            (if clip < sample then
               (let excess = fsub sample clip
                in fadd clip (fmul excess (float64_round 0.3)))
             else if sample < - clip then
               (let excess = fadd sample clip
                in fadd (- clip) (fmul excess (float64_round 0.3)))
             else sample)
      in go_int16_of_float sample)"

definition processAudioData :: "Config \<Rightarrow> int16 list \<Rightarrow> int16 list" where
  "processAudioData config buffer = map (processSample config) buffer"

subsection \<open>int16ToBytes\<close>

definition int16ToBytes :: "int16 list \<Rightarrow> byte list" where
  "int16ToBytes buffer =
     concat (map (\<lambda>sample. [go_byte (sample AND 0xFF),
                             go_byte (signed_drop_bit 8 sample AND 0xFF)]) buffer)"

subsection \<open>processAudio: the capture loop\<close>

text \<open>
  What the loop takes from outside is one read of the device per cycle: a failure, or a
  frame together with the answer of the clock to \<open>time.Since(lastStats) > 5s\<close>. What it
  does to the outside is a trace of events: log lines, the 10 ms sleep, the call of the
  data callback with the encoded frame, the status line.
\<close>

datatype read_result = ReadError | ReadOk "int16 list" bool

datatype event =
    LogReadError
  | LogTooManyErrors
  | Sleep nat
  | Callback "byte list"
  | StatusLine

datatype control = Continue | Break

record capture_state =
  frameCount :: int64
  bytesSent :: int64
  silenceCount :: int64
  bytesTransferred :: go_int
  silenceFrames :: go_int
  consecutiveErrors :: go_int
  events :: "event list"

definition capture_start :: capture_state where
  "capture_start =
     \<lparr>frameCount = 0, bytesSent = 0, silenceCount = 0, bytesTransferred = 0,
      silenceFrames = 0, consecutiveErrors = 0, events = []\<rparr>"

text \<open>The part of a cycle after the silence check: process, encode, count, send, report.\<close>

definition processAudio_send ::
  "Config \<Rightarrow> bool \<Rightarrow> int16 list \<Rightarrow> bool \<Rightarrow> capture_state \<Rightarrow> capture_state" where
  "processAudio_send config dataCallback buffer statsDue st =
     (let processedBuffer = processAudioData config buffer;
          audioData = int16ToBytes processedBuffer;
          st = st\<lparr>bytesSent := bytesSent st + of_nat (length audioData)\<rparr>;
          st = st\<lparr>bytesTransferred := bytesTransferred st + of_nat (length audioData)\<rparr>;
          st = (if dataCallback then st\<lparr>events := events st @ [Callback audioData]\<rparr> else st)
      in if statsDue
         then st\<lparr>events := events st @ [StatusLine], bytesTransferred := 0\<rparr>
         else st)"

definition processAudio_cycle ::
  "Config \<Rightarrow> bool \<Rightarrow> read_result \<Rightarrow> capture_state \<Rightarrow> control \<times> capture_state" where
  "processAudio_cycle config dataCallback r st =
     (case r of
        ReadError \<Rightarrow>
          (let st = st\<lparr>events := events st @ [LogReadError]\<rparr>;
               st = st\<lparr>consecutiveErrors := consecutiveErrors st + 1\<rparr>
           in if 10 <s consecutiveErrors st
              then (Break, st\<lparr>events := events st @ [LogTooManyErrors]\<rparr>)
              else (Continue, st\<lparr>events := events st @ [Sleep 10]\<rparr>))
      | ReadOk buffer statsDue \<Rightarrow>
          (let st = st\<lparr>consecutiveErrors := 0\<rparr>;
               st = st\<lparr>frameCount := frameCount st + 1\<rparr>
           in if SilenceDetection (Processing config) then
                if isSilence config buffer then
                  (let st = st\<lparr>silenceFrames := silenceFrames st + 1\<rparr>;
                       st = st\<lparr>silenceCount := silenceCount st + 1\<rparr>
                   in if 30 <s silenceFrames st
                      then (Continue, st)
                      else (Continue, processAudio_send config dataCallback buffer statsDue st))
                else
                  (let st = st\<lparr>silenceFrames := 0\<rparr>
                   in (Continue, processAudio_send config dataCallback buffer statsDue st))
              else (Continue, processAudio_send config dataCallback buffer statsDue st)))"

text \<open>
  The loop over the reads the device answers while \<open>isRunning\<close> holds. \<open>Break\<close> is the
  exit after too many errors; \<open>Continue\<close> means that the reads ran out first.
\<close>

fun processAudio_loop ::
  "Config \<Rightarrow> bool \<Rightarrow> read_result list \<Rightarrow> capture_state \<Rightarrow> control \<times> capture_state" where
  "processAudio_loop config dataCallback [] st = (Continue, st)"
| "processAudio_loop config dataCallback (r # rs) st =
     (case processAudio_cycle config dataCallback r st of
        (Break, st') \<Rightarrow> (Break, st')
      | (Continue, st') \<Rightarrow> processAudio_loop config dataCallback rs st')"

definition processAudio ::
  "Config \<Rightarrow> bool \<Rightarrow> read_result list \<Rightarrow> control \<times> capture_state" where
  "processAudio config dataCallback reads =
     processAudio_loop config dataCallback reads capture_start"

definition callbacks :: "event list \<Rightarrow> byte list list" where
  "callbacks es = concat (map (\<lambda>e. case e of Callback d \<Rightarrow> [d] | _ \<Rightarrow> []) es)"

section \<open>TCP server (tcp.go)\<close>

text \<open>
  A connection is known by its identity. The keys of the map \<open>clients\<close> are kept as a
  list without repetition, in one of the orders \<open>range\<close> may visit them. What a
  connection has taken is \<open>delivered\<close>; \<open>writeOk\<close> tells whether \<open>Write\<close> comes back
  without error (a missed deadline is an error).
\<close>

type_synonym conn = nat

record TCPServer =
  clients :: "conn list"
  delivered :: "conn \<Rightarrow> byte list list"
  conn_closed :: "conn \<Rightarrow> bool"

definition NewTCPServer :: TCPServer where
  "NewTCPServer = \<lparr>clients = [], delivered = (\<lambda>_. []), conn_closed = (\<lambda>_. False)\<rparr>"

definition addClient :: "conn \<Rightarrow> TCPServer \<Rightarrow> TCPServer" where
  "addClient c ts = ts\<lparr>clients := List.insert c (clients ts)\<rparr>"

fun TCPServer_Broadcast_loop ::
  "(conn \<Rightarrow> bool) \<Rightarrow> byte list \<Rightarrow> conn list \<Rightarrow> TCPServer \<Rightarrow> conn list \<Rightarrow> TCPServer \<times> conn list"
  where
  "TCPServer_Broadcast_loop writeOk data [] ts failedClients = (ts, failedClients)"
| "TCPServer_Broadcast_loop writeOk data (client # rest) ts failedClients =
     (if \<not> writeOk client
      then TCPServer_Broadcast_loop writeOk data rest ts (failedClients @ [client])
      else TCPServer_Broadcast_loop writeOk data rest
             (ts\<lparr>delivered := (delivered ts)(client := delivered ts client @ [data])\<rparr>)
             failedClients)"

text \<open>
  The second component is the argument of the \<open>go ts.cleanupClients(failedClients)\<close> that
  the call starts, if it starts one.
\<close>

definition TCPServer_Broadcast ::
  "(conn \<Rightarrow> bool) \<Rightarrow> byte list \<Rightarrow> TCPServer \<Rightarrow> TCPServer \<times> conn list option" where
  "TCPServer_Broadcast writeOk data ts =
     (if length (clients ts) = 0 then (ts, None)
      else
        case TCPServer_Broadcast_loop writeOk data (clients ts) ts [] of
          (ts', failedClients) \<Rightarrow>
            (ts', if 0 < length failedClients then Some failedClients else None))"

fun cleanupClients :: "conn list \<Rightarrow> TCPServer \<Rightarrow> TCPServer" where
  "cleanupClients [] ts = ts"
| "cleanupClients (client # failedClients) ts =
     cleanupClients failedClients
       (ts\<lparr>clients := removeAll client (clients ts),
           conn_closed := (conn_closed ts)(client := True)\<rparr>)"

section \<open>HTTP server (http.go)\<close>

text \<open>
  A response writer is known by its identity; \<open>wire\<close> is what it was given, in order:
  the payload of every \<open>Write\<close> that came back without error, and every \<open>Flush\<close>.
  \<open>isFlusher\<close> tells whether the writer is an \<open>http.Flusher\<close>.
\<close>

type_synonym client = nat

datatype io_event = Write "byte list" | Flush

record HTTPServer =
  config :: Config
  streamClients :: "client list"
  audioBuffer :: "byte list list"
  bufferSize :: nat
  wire :: "client \<Rightarrow> io_event list"

definition NewHTTPServer :: "Config \<Rightarrow> HTTPServer" where
  "NewHTTPServer c =
     \<lparr>config = c, streamClients = [], audioBuffer = [], bufferSize = 50, wire = (\<lambda>_. [])\<rparr>"

definition http_Write :: "(client \<Rightarrow> bool) \<Rightarrow> client \<Rightarrow> byte list \<Rightarrow> HTTPServer \<Rightarrow> HTTPServer" where
  "http_Write writeOk w data hs =
     (if writeOk w then hs\<lparr>wire := (wire hs)(w := wire hs w @ [Write data])\<rparr> else hs)"

definition http_Flush :: "(client \<Rightarrow> bool) \<Rightarrow> client \<Rightarrow> HTTPServer \<Rightarrow> HTTPServer" where
  "http_Flush isFlusher w hs =
     (if isFlusher w then hs\<lparr>wire := (wire hs)(w := wire hs w @ [Flush])\<rparr> else hs)"

text \<open>The payloads of the thirteen \<open>w.Write\<close> calls of writeWAVHeader, in order.\<close>

definition le32 :: "go_int \<Rightarrow> byte list" where
  "le32 x = [go_byte (x AND 0xff), go_byte (signed_drop_bit 8 x AND 0xff),
             go_byte (signed_drop_bit 16 x AND 0xff), go_byte (signed_drop_bit 24 x AND 0xff)]"

definition wavHeaderWrites :: "Config \<Rightarrow> byte list list" where
  "wavHeaderWrites c =
     (let sampleRate = go_int_of_float (SampleRate (Audio c));
          channels = Channels (Audio c);
          bitsPerSample = 16;
          byteRate = go_div (sampleRate * channels * bitsPerSample) 8;
          blockAlign = go_div (channels * bitsPerSample) 8
      in [map of_char ''RIFF'',
          [0xff, 0xff, 0xff, 0xff],
          map of_char ''WAVE'',
          map of_char ''fmt '',
          [16, 0, 0, 0],
          [1, 0],
          [go_byte channels, 0],
          le32 sampleRate,
          le32 byteRate,
          [go_byte blockAlign, 0],
          [go_byte bitsPerSample, 0],
          map of_char ''data'',
          [0xff, 0xff, 0xff, 0xff]])"

definition writeWAVHeader :: "(client \<Rightarrow> bool) \<Rightarrow> client \<Rightarrow> HTTPServer \<Rightarrow> HTTPServer" where
  "writeWAVHeader writeOk w hs = fold (http_Write writeOk w) (wavHeaderWrites (config hs)) hs"

definition sendBufferedAudio ::
  "(client \<Rightarrow> bool) \<Rightarrow> (client \<Rightarrow> bool) \<Rightarrow> client \<Rightarrow> HTTPServer \<Rightarrow> HTTPServer" where
  "sendBufferedAudio writeOk isFlusher w hs =
     http_Flush isFlusher w (fold (http_Write writeOk w) (audioBuffer hs) hs)"

definition addStreamClient :: "client \<Rightarrow> HTTPServer \<Rightarrow> HTTPServer" where
  "addStreamClient w hs = hs\<lparr>streamClients := List.insert w (streamClients hs)\<rparr>"

definition removeStreamClient :: "client \<Rightarrow> HTTPServer \<Rightarrow> HTTPServer" where
  "removeStreamClient w hs = hs\<lparr>streamClients := removeAll w (streamClients hs)\<rparr>"

text \<open>
  handleWavStream up to the point where it waits for the request to end: header, flush,
  backlog, registration. What it does after the wait is removeStreamClient.
\<close>

definition handleWavStream ::
  "(client \<Rightarrow> bool) \<Rightarrow> (client \<Rightarrow> bool) \<Rightarrow> client \<Rightarrow> HTTPServer \<Rightarrow> HTTPServer" where
  "handleWavStream writeOk isFlusher w hs =
     (let hs = writeWAVHeader writeOk w hs;
          hs = http_Flush isFlusher w hs;
          hs = sendBufferedAudio writeOk isFlusher w hs
      in addStreamClient w hs)"

fun broadcastHTTPStream_loop ::
  "(client \<Rightarrow> bool) \<Rightarrow> (client \<Rightarrow> bool) \<Rightarrow> byte list \<Rightarrow> client list \<Rightarrow> HTTPServer \<Rightarrow>
     client list \<Rightarrow> HTTPServer \<times> client list" where
  "broadcastHTTPStream_loop writeOk isFlusher data [] hs failedClients = (hs, failedClients)"
| "broadcastHTTPStream_loop writeOk isFlusher data (client # rest) hs failedClients =
     (if \<not> writeOk client
      then broadcastHTTPStream_loop writeOk isFlusher data rest hs (failedClients @ [client])
      else broadcastHTTPStream_loop writeOk isFlusher data rest
             (http_Flush isFlusher client (http_Write writeOk client data hs)) failedClients)"

definition broadcastHTTPStream ::
  "(client \<Rightarrow> bool) \<Rightarrow> (client \<Rightarrow> bool) \<Rightarrow> byte list \<Rightarrow> HTTPServer \<Rightarrow>
     HTTPServer \<times> client list option" where
  "broadcastHTTPStream writeOk isFlusher data hs =
     (if length (streamClients hs) = 0 then (hs, None)
      else
        case broadcastHTTPStream_loop writeOk isFlusher data (streamClients hs) hs [] of
          (hs', failedClients) \<Rightarrow>
            (hs', if 0 < length failedClients then Some failedClients else None))"

definition bufferAudioData :: "byte list \<Rightarrow> HTTPServer \<Rightarrow> HTTPServer" where
  "bufferAudioData data hs =
     (let hs = hs\<lparr>audioBuffer := audioBuffer hs @ [data]\<rparr>
      in if bufferSize hs < length (audioBuffer hs)
         then hs\<lparr>audioBuffer := drop (length (audioBuffer hs) - bufferSize hs) (audioBuffer hs)\<rparr>
         else hs)"

definition HTTPServer_Broadcast ::
  "(client \<Rightarrow> bool) \<Rightarrow> (client \<Rightarrow> bool) \<Rightarrow> byte list \<Rightarrow> HTTPServer \<Rightarrow>
     HTTPServer \<times> client list option" where
  "HTTPServer_Broadcast writeOk isFlusher data hs =
     (case broadcastHTTPStream writeOk isFlusher data hs of
        (hs', cleanup) \<Rightarrow> (bufferAudioData data hs', cleanup))"

fun cleanupStreamClients :: "client list \<Rightarrow> HTTPServer \<Rightarrow> HTTPServer" where
  "cleanupStreamClients [] hs = hs"
| "cleanupStreamClients (client # failedClients) hs =
     cleanupStreamClients failedClients
       (hs\<lparr>streamClients := removeAll client (streamClients hs)\<rparr>)"

text \<open>A run of dispatches, the cleanups they start still waiting.\<close>

definition dispatch_frames ::
  "(client \<Rightarrow> bool) \<Rightarrow> (client \<Rightarrow> bool) \<Rightarrow> byte list list \<Rightarrow> HTTPServer \<Rightarrow> HTTPServer" where
  "dispatch_frames writeOk isFlusher frames hs =
     fold (\<lambda>data hs. fst (HTTPServer_Broadcast writeOk isFlusher data hs)) frames hs"

text \<open>
  The handler runs beside the goroutine that dispatches. \<open>between\<close> are the frames that
  goroutine dispatches after sendBufferedAudio has returned and before addStreamClient
  takes its lock; with none, this is handleWavStream.
\<close>

definition handleWavStream_interleaved ::
  "(client \<Rightarrow> bool) \<Rightarrow> (client \<Rightarrow> bool) \<Rightarrow> client \<Rightarrow> byte list list \<Rightarrow> HTTPServer \<Rightarrow>
     HTTPServer" where
  "handleWavStream_interleaved writeOk isFlusher w between hs =
     (let hs = writeWAVHeader writeOk w hs;
          hs = http_Flush isFlusher w hs;
          hs = sendBufferedAudio writeOk isFlusher w hs;
          hs = dispatch_frames writeOk isFlusher between hs
      in addStreamClient w hs)"

text \<open>The environment in which every write succeeds and every writer can flush.\<close>

definition every_client :: "client \<Rightarrow> bool" where
  "every_client w = True"

section \<open>Reference definitions, from the specification's words\<close>


text \<open>
  The streaming WAV header as the specification lists it, its fields little-endian: a
  16-bit field holds \<open>v mod 2^16\<close>, a 32-bit field \<open>v mod 2^32\<close>.
\<close>

definition spec_u16le :: "int \<Rightarrow> byte list" where
  "spec_u16le v = [word_of_int v, word_of_int (v div 256)]"

definition spec_u32le :: "int \<Rightarrow> byte list" where
  "spec_u32le v =
     [word_of_int v, word_of_int (v div 256), word_of_int (v div 65536),
      word_of_int (v div 16777216)]"

definition spec_wav_header :: "int \<Rightarrow> int \<Rightarrow> byte list" where
  "spec_wav_header channels sample_rate =
     map of_char ''RIFF'' @ spec_u32le (2 ^ 32 - 1) @ map of_char ''WAVE''
     @ map of_char ''fmt '' @ spec_u32le 16 @ spec_u16le 1 @ spec_u16le channels
     @ spec_u32le sample_rate @ spec_u32le (sample_rate * channels * 2)
     @ spec_u16le (channels * 2) @ spec_u16le 16
     @ map of_char ''data'' @ spec_u32le (2 ^ 32 - 1)"

section \<open>Properties of isSilence\<close>

lemma sint_go_int16:
  "- 32768 \<le> sint x \<Longrightarrow> sint x < 32768 \<Longrightarrow> sint (go_int16 x) = sint x"
  unfolding go_int16_def sint_sbintrunc' by (simp add: signed_take_bit_int_eq_self)

lemma sint_go_int16_wrap: "sint (go_int16 x) = signed_take_bit 15 (sint x)"
  unfolding go_int16_def sint_sbintrunc' by simp

lemma sint_int16_range: "- 32768 \<le> sint (b :: int16) \<and> sint b < 32768"
  using sint_ge [of b] sint_lt [of b] by simp

lemma sint_neg_int16:
  "sint (t :: int16) \<noteq> - 32768 \<Longrightarrow> sint (- t) = - sint t"
  using sint_int16_range [of t]
  by (simp add: sint_word_minus signed_take_bit_int_eq_self)

lemma sint_neg_int16_min:
  "sint (t :: int16) = - 32768 \<Longrightarrow> sint (- t) = - 32768"
  by (simp add: sint_word_minus)

lemma isSilence_loop_iff:
  "sint t \<noteq> - 32768 \<Longrightarrow>
     isSilence_loop t buffer \<longleftrightarrow> (\<forall>b \<in> set buffer. \<bar>sint b\<bar> \<le> sint t)"
  by (induction buffer) (auto simp: word_sless_alt sint_neg_int16)

lemma isSilence_loop_min:
  "sint t = - 32768 \<Longrightarrow>
     isSilence_loop t buffer \<longleftrightarrow> (\<forall>b \<in> set buffer. sint b = - 32768)"
  using sint_int16_range
  by (induction buffer) (auto simp: word_sless_alt sint_neg_int16_min)

text \<open>
  C8 (amended). For a configured silence threshold \<open>T\<close> that an \<open>int16\<close> holds together
  with its negation (\<open>-32767 \<le> T \<le> 32767\<close>), isSilence returns true for exactly the frames
  in which every sample's absolute value is at most \<open>T\<close>; so a frame with a sample of
  absolute value \<open>T + 1\<close> is classified non-silent.
\<close>

theorem isSilence_iff_within_threshold:
  assumes "- 32767 \<le> sint (SilenceThreshold (Processing cfg))"
      and "sint (SilenceThreshold (Processing cfg)) \<le> 32767"
  shows "(isSilence cfg buffer \<longleftrightarrow>
            (\<forall>b \<in> set buffer. \<bar>sint b\<bar> \<le> sint (SilenceThreshold (Processing cfg))))
       \<and> ((\<exists>b \<in> set buffer. \<bar>sint b\<bar> = sint (SilenceThreshold (Processing cfg)) + 1)
            \<longrightarrow> \<not> isSilence cfg buffer)"
proof -
  let ?T = "SilenceThreshold (Processing cfg)"
  have eq: "sint (go_int16 ?T) = sint ?T"
    using assms by (intro sint_go_int16) simp_all
  then have "sint (go_int16 ?T) \<noteq> - 32768"
    using assms by simp
  then have iff: "isSilence cfg buffer \<longleftrightarrow> (\<forall>b \<in> set buffer. \<bar>sint b\<bar> \<le> sint ?T)"
    by (simp add: isSilence_def isSilence_loop_iff eq)
  then show ?thesis by fastforce
qed

text \<open>
  At the default threshold 1000: a frame whose samples stay within it is silent, a frame
  with the sample 1001 is not.
\<close>

theorem isSilence_iff_within_threshold_witness:
  "isSilence setDefaults [5, - 1000, 1000] \<and> \<not> isSilence setDefaults [5, 1001, 0]"
  using isSilence_iff_within_threshold [of setDefaults "[5, - 1000, 1000]"]
        isSilence_iff_within_threshold [of setDefaults "[5, 1001, 0]"]
  by (simp add: setDefaults_def)

text \<open>
  C8 as stated fails for a threshold outside the \<open>int16\<close> range: with \<open>T = 40000\<close> the
  sample 0 is within the threshold, and the frame is classified non-silent. It fails at
  \<open>T = -32768\<close> too, whose negation wraps: the sample -32768 is not within the threshold,
  and the frame is classified silent.
\<close>

theorem isSilence_threshold_40000_counterexample:
  "\<bar>sint (0 :: int16)\<bar> \<le>
     sint (SilenceThreshold (Processing (setDefaults\<lparr>Processing :=
        (Processing setDefaults)\<lparr>SilenceThreshold := 40000\<rparr>\<rparr>)))
   \<and> \<not> isSilence (setDefaults\<lparr>Processing :=
        (Processing setDefaults)\<lparr>SilenceThreshold := 40000\<rparr>\<rparr>) [0]
   \<and> \<not> \<bar>sint (- 32768 :: int16)\<bar> \<le>
     sint (SilenceThreshold (Processing (setDefaults\<lparr>Processing :=
        (Processing setDefaults)\<lparr>SilenceThreshold := - 32768\<rparr>\<rparr>)))
   \<and> isSilence (setDefaults\<lparr>Processing :=
        (Processing setDefaults)\<lparr>SilenceThreshold := - 32768\<rparr>\<rparr>) [- 32768]"
  by (simp add: isSilence_def go_int16_def setDefaults_def word_sless_alt)

section \<open>Properties of the capture loop\<close>

lemma callbacks_Nil [simp]: "callbacks [] = []"
  by (simp add: callbacks_def)

lemma callbacks_append [simp]: "callbacks (xs @ ys) = callbacks xs @ callbacks ys"
  by (simp add: callbacks_def)

lemma callbacks_Cons_simps [simp]:
  "callbacks (Callback d # es) = d # callbacks es"
  "callbacks (LogReadError # es) = callbacks es"
  "callbacks (LogTooManyErrors # es) = callbacks es"
  "callbacks (Sleep n # es) = callbacks es"
  "callbacks (StatusLine # es) = callbacks es"
  by (simp_all add: callbacks_def)

lemma length_int16ToBytes: "length (int16ToBytes buffer) = 2 * length buffer"
  by (induction buffer) (simp_all add: int16ToBytes_def)

lemma length_processAudioData [simp]: "length (processAudioData cfg buffer) = length buffer"
  by (simp add: processAudioData_def)

lemma processAudio_send_fields:
  "frameCount (processAudio_send cfg cb buffer due st) = frameCount st"
  "silenceCount (processAudio_send cfg cb buffer due st) = silenceCount st"
  "silenceFrames (processAudio_send cfg cb buffer due st) = silenceFrames st"
  "consecutiveErrors (processAudio_send cfg cb buffer due st) = consecutiveErrors st"
  "bytesSent (processAudio_send cfg cb buffer due st) =
     bytesSent st + of_nat (2 * length buffer)"
  "callbacks (events (processAudio_send cfg cb buffer due st)) =
     callbacks (events st) @ (if cb then [int16ToBytes (processAudioData cfg buffer)] else [])"
  by (simp_all add: processAudio_send_def Let_def length_int16ToBytes)

lemma cycle_silent:
  assumes "SilenceDetection (Processing cfg)" "isSilence cfg buffer"
  shows "processAudio_cycle cfg cb (ReadOk buffer due) st =
     (let st1 = st\<lparr>consecutiveErrors := 0, frameCount := frameCount st + 1,
                    silenceFrames := silenceFrames st + 1,
                    silenceCount := silenceCount st + 1\<rparr>
      in if 30 <s silenceFrames st + 1 then (Continue, st1)
         else (Continue, processAudio_send cfg cb buffer due st1))"
  using assms by (simp add: processAudio_cycle_def Let_def)

lemma cycle_not_silent:
  assumes "SilenceDetection (Processing cfg)" "\<not> isSilence cfg buffer"
  shows "processAudio_cycle cfg cb (ReadOk buffer due) st =
     (Continue, processAudio_send cfg cb buffer due
        (st\<lparr>consecutiveErrors := 0, frameCount := frameCount st + 1, silenceFrames := 0\<rparr>))"
  using assms by (simp add: processAudio_cycle_def Let_def)

lemma cycle_no_detection:
  assumes "\<not> SilenceDetection (Processing cfg)"
  shows "processAudio_cycle cfg cb (ReadOk buffer due) st =
     (Continue, processAudio_send cfg cb buffer due
        (st\<lparr>consecutiveErrors := 0, frameCount := frameCount st + 1\<rparr>))"
  using assms by (simp add: processAudio_cycle_def Let_def)

lemma cycle_error:
  "processAudio_cycle cfg cb ReadError st =
     (if 10 <s consecutiveErrors st + 1
      then (Break, st\<lparr>events := events st @ [LogReadError, LogTooManyErrors],
                       consecutiveErrors := consecutiveErrors st + 1\<rparr>)
      else (Continue, st\<lparr>events := events st @ [LogReadError, Sleep 10],
                          consecutiveErrors := consecutiveErrors st + 1\<rparr>))"
  by (simp add: processAudio_cycle_def Let_def)

lemma sint_go_int_succ:
  "sint (w :: go_int) = int k \<Longrightarrow> k < 2 ^ 63 - 1 \<Longrightarrow> sint (w + 1) = int (Suc k)"
  by (simp add: sint_word_ariths signed_take_bit_int_eq_self)

lemma silent_run:
  assumes sd: "SilenceDetection (Processing cfg)"
  shows "(\<forall>f \<in> set fs. isSilence cfg (fst f)) \<Longrightarrow> sint (silenceFrames st) = int k \<Longrightarrow>
         k + length fs < 2 ^ 63 \<Longrightarrow>
         (\<exists>st'. processAudio_loop cfg cb (map (\<lambda>(f, d). ReadOk f d) fs) st = (Continue, st')
            \<and> callbacks (events st') =
                callbacks (events st) @
                (if cb then map (\<lambda>f. int16ToBytes (processAudioData cfg f)) (take (30 - k) (map fst fs))
                 else [])
            \<and> silenceCount st' = silenceCount st + of_nat (length fs)
            \<and> frameCount st' = frameCount st + of_nat (length fs)
            \<and> sint (silenceFrames st') = int (k + length fs))"
proof (induction fs arbitrary: st k)
  case Nil
  then show ?case by simp
next
  case (Cons a fs)
  obtain f d where a: "a = (f, d)" by (cases a)
  from Cons.prems have sil: "isSilence cfg f" and rest: "\<forall>f \<in> set fs. isSilence cfg (fst f)"
    by (simp_all add: a)
  from Cons.prems have k: "k < 2 ^ 63 - 1" and k': "Suc k + length fs < 2 ^ 63"
    by simp_all
  have s1: "sint (silenceFrames st + 1) = int (Suc k)"
    using Cons.prems(2) k by (rule sint_go_int_succ)
  have thr: "(30 <s silenceFrames st + 1) \<longleftrightarrow> 30 \<le> k"
    using s1 by (auto simp add: word_sless_alt)
  define st1 where "st1 = st\<lparr>consecutiveErrors := 0, frameCount := frameCount st + 1,
                    silenceFrames := silenceFrames st + 1,
                    silenceCount := silenceCount st + 1\<rparr>"
  define st2 where "st2 = (if 30 \<le> k then st1 else processAudio_send cfg cb f d st1)"
  have cyc: "processAudio_cycle cfg cb (ReadOk f d) st = (Continue, st2)"
    by (simp add: cycle_silent [OF sd sil] Let_def thr st1_def st2_def)
  have sf2: "sint (silenceFrames st2) = int (Suc k)"
    by (simp add: st2_def st1_def processAudio_send_fields s1)
  from Cons.IH [OF rest sf2 k'] obtain st' where
    loop: "processAudio_loop cfg cb (map (\<lambda>(f, d). ReadOk f d) fs) st2 = (Continue, st')"
    and cbs: "callbacks (events st') = callbacks (events st2) @
                (if cb then map (\<lambda>f. int16ToBytes (processAudioData cfg f)) (take (30 - Suc k) (map fst fs))
                 else [])"
    and sc: "silenceCount st' = silenceCount st2 + of_nat (length fs)"
    and fc: "frameCount st' = frameCount st2 + of_nat (length fs)"
    and sf: "sint (silenceFrames st') = int (Suc k + length fs)"
    by blast
  have take_eq: "take (30 - k) (f # map fst fs) =
      (if 30 \<le> k then [] else f # take (30 - Suc k) (map fst fs))"
  proof (cases "30 \<le> k")
    case True
    then show ?thesis by simp
  next
    case False
    then have "30 - k = Suc (30 - Suc k)" by simp
    then show ?thesis using False by (simp del: diff_Suc_eq_diff_pred)
  qed
  have "processAudio_loop cfg cb (map (\<lambda>(f, d). ReadOk f d) (a # fs)) st = (Continue, st')"
    by (simp add: a cyc loop)
  moreover have "callbacks (events st') =
                callbacks (events st) @
                (if cb then map (\<lambda>f. int16ToBytes (processAudioData cfg f)) (take (30 - k) (map fst (a # fs)))
                 else [])"
    by (simp add: cbs a take_eq st2_def st1_def processAudio_send_fields)
  moreover have "silenceCount st' = silenceCount st + of_nat (length (a # fs))"
    by (simp add: sc st2_def st1_def processAudio_send_fields)
  moreover have "frameCount st' = frameCount st + of_nat (length (a # fs))"
    by (simp add: fc st2_def st1_def processAudio_send_fields)
  moreover have "sint (silenceFrames st') = int (k + length (a # fs))"
    using sf by simp
  ultimately show ?case by blast
qed

lemma processAudio_loop_append:
  "processAudio_loop cfg cb (xs @ ys) st =
     (case processAudio_loop cfg cb xs st of
        (Break, st') \<Rightarrow> (Break, st')
      | (Continue, st') \<Rightarrow> processAudio_loop cfg cb ys st')"
  by (induction xs arbitrary: st) (auto split: prod.splits control.splits)

lemma error_run:
  "sint (consecutiveErrors st) = int k \<Longrightarrow> k + n \<le> 10 \<Longrightarrow>
     processAudio_loop cfg cb (replicate n ReadError) st =
       (Continue, st\<lparr>events := events st @ concat (replicate n [LogReadError, Sleep 10]),
                      consecutiveErrors := consecutiveErrors st + of_nat n\<rparr>)"
proof (induction n arbitrary: st k)
  case 0
  then show ?case by simp
next
  case (Suc n)
  have s1: "sint (consecutiveErrors st + 1) = int (Suc k)"
    using Suc.prems by (intro sint_go_int_succ) simp_all
  then have no: "\<not> 10 <s consecutiveErrors st + 1"
    using Suc.prems by (simp add: word_sless_alt)
  define st1 where "st1 = st\<lparr>events := events st @ [LogReadError, Sleep 10],
                          consecutiveErrors := consecutiveErrors st + 1\<rparr>"
  have cyc: "processAudio_cycle cfg cb ReadError st = (Continue, st1)"
    by (simp add: cycle_error no st1_def)
  have "sint (consecutiveErrors st1) = int (Suc k)" "Suc k + n \<le> 10"
    using s1 Suc.prems by (simp_all add: st1_def)
  from Suc.IH [OF this] show ?case
    by (simp add: cyc st1_def add.assoc)
qed

text \<open>
  C1. With silence detection enabled, a cycle whose frame is silent increments the frame
  counter, the silence counter and the count of consecutive silent frames; once that
  count exceeds 30 the cycle leaves the byte count and the event trace as they were (no
  processing, no encoding, no callback), otherwise the frame is processed, encoded,
  counted (two bytes per sample) and handed to the callback. A non-silent frame resets
  the consecutive count to zero and is processed. From the start of the loop, a run of
  silent frames gets exactly its first 30 frames dispatched, while both counters count
  every frame of the run: the 31st is counted and not dispatched.
\<close>

theorem silence_throttling:
  assumes "SilenceDetection (Processing cfg)"
  shows
    "(isSilence cfg buffer \<longrightarrow>
        (let st' = snd (processAudio_cycle cfg cb (ReadOk buffer due) st) in
           fst (processAudio_cycle cfg cb (ReadOk buffer due) st) = Continue
         \<and> frameCount st' = frameCount st + 1
         \<and> silenceCount st' = silenceCount st + 1
         \<and> silenceFrames st' = silenceFrames st + 1
         \<and> (30 <s silenceFrames st' \<longrightarrow>
               bytesSent st' = bytesSent st \<and> events st' = events st)
         \<and> (\<not> 30 <s silenceFrames st' \<longrightarrow>
               bytesSent st' = bytesSent st + of_nat (2 * length buffer)
             \<and> callbacks (events st') =
                 callbacks (events st) @
                 (if cb then [int16ToBytes (processAudioData cfg buffer)] else []))))
   \<and> (\<not> isSilence cfg buffer \<longrightarrow>
        (let st' = snd (processAudio_cycle cfg cb (ReadOk buffer due) st) in
           fst (processAudio_cycle cfg cb (ReadOk buffer due) st) = Continue
         \<and> frameCount st' = frameCount st + 1
         \<and> silenceCount st' = silenceCount st
         \<and> silenceFrames st' = 0
         \<and> bytesSent st' = bytesSent st + of_nat (2 * length buffer)
         \<and> callbacks (events st') =
             callbacks (events st) @
             (if cb then [int16ToBytes (processAudioData cfg buffer)] else [])))
   \<and> ((\<forall>f \<in> set fs. isSilence cfg (fst f)) \<and> length fs < 2 ^ 63 \<longrightarrow>
        (let st' = snd (processAudio cfg cb (map (\<lambda>(f, d). ReadOk f d) fs)) in
           fst (processAudio cfg cb (map (\<lambda>(f, d). ReadOk f d) fs)) = Continue
         \<and> callbacks (events st') =
             (if cb then map (\<lambda>f. int16ToBytes (processAudioData cfg f)) (take 30 (map fst fs))
              else [])
         \<and> silenceCount st' = of_nat (length fs)
         \<and> frameCount st' = of_nat (length fs)))"
proof (intro conjI impI)
  assume sil: "isSilence cfg buffer"
  show "let st' = snd (processAudio_cycle cfg cb (ReadOk buffer due) st) in
           fst (processAudio_cycle cfg cb (ReadOk buffer due) st) = Continue
         \<and> frameCount st' = frameCount st + 1
         \<and> silenceCount st' = silenceCount st + 1
         \<and> silenceFrames st' = silenceFrames st + 1
         \<and> (30 <s silenceFrames st' \<longrightarrow>
               bytesSent st' = bytesSent st \<and> events st' = events st)
         \<and> (\<not> 30 <s silenceFrames st' \<longrightarrow>
               bytesSent st' = bytesSent st + of_nat (2 * length buffer)
             \<and> callbacks (events st') =
                 callbacks (events st) @
                 (if cb then [int16ToBytes (processAudioData cfg buffer)] else []))"
    by (cases "30 <s silenceFrames st + 1")
       (simp_all add: cycle_silent [OF assms sil] Let_def processAudio_send_fields)
next
  assume nsil: "\<not> isSilence cfg buffer"
  show "let st' = snd (processAudio_cycle cfg cb (ReadOk buffer due) st) in
           fst (processAudio_cycle cfg cb (ReadOk buffer due) st) = Continue
         \<and> frameCount st' = frameCount st + 1
         \<and> silenceCount st' = silenceCount st
         \<and> silenceFrames st' = 0
         \<and> bytesSent st' = bytesSent st + of_nat (2 * length buffer)
         \<and> callbacks (events st') =
             callbacks (events st) @
             (if cb then [int16ToBytes (processAudioData cfg buffer)] else [])"
    by (simp add: cycle_not_silent [OF assms nsil] Let_def processAudio_send_fields)
next
  assume run: "(\<forall>f \<in> set fs. isSilence cfg (fst f)) \<and> length fs < 2 ^ 63"
  have "sint (silenceFrames capture_start) = int 0" "0 + length fs < 2 ^ 63"
    using run by (simp_all add: capture_start_def)
  from silent_run [OF assms conjunct1 [OF run] this, of cb]
  show "let st' = snd (processAudio cfg cb (map (\<lambda>(f, d). ReadOk f d) fs)) in
           fst (processAudio cfg cb (map (\<lambda>(f, d). ReadOk f d) fs)) = Continue
         \<and> callbacks (events st') =
             (if cb then map (\<lambda>f. int16ToBytes (processAudioData cfg f)) (take 30 (map fst fs))
              else [])
         \<and> silenceCount st' = of_nat (length fs)
         \<and> frameCount st' = of_nat (length fs)"
    by (auto simp: processAudio_def capture_start_def Let_def)
qed

lemma int16ToBytes_zero2: "int16ToBytes [0, 0] = [0, 0, 0, 0]"
  by (simp add: int16ToBytes_def go_byte_def)

lemma processSample_default_zero: "processSample setDefaults 0 = 0"
  by (simp add: processSample_def setDefaults_def go_int16_of_float_def float_trunc_def Let_def
        fmul_def float64_round_def)

lemma isSilence_default_zero2: "isSilence setDefaults [0, 0]"
  by (simp add: isSilence_def setDefaults_def go_int16_def word_sless_alt)

text \<open>
  At the default configuration, 31 all-zero frames: 30 callbacks, silence counter 31.
\<close>

theorem silence_throttling_witness:
  "SilenceDetection (Processing setDefaults)
   \<and> isSilence setDefaults [0, 0]
   \<and> callbacks (events (snd (processAudio setDefaults True
         (map (\<lambda>(f, d). ReadOk f d) (replicate 31 ([0, 0], False)))))) =
       replicate 30 [0, 0, 0, 0]
   \<and> silenceCount (snd (processAudio setDefaults True
         (map (\<lambda>(f, d). ReadOk f d) (replicate 31 ([0, 0], False))))) = 31"
proof -
  have sd: "SilenceDetection (Processing setDefaults)"
    by (simp add: setDefaults_def)
  have enc: "int16ToBytes (processAudioData setDefaults [0, 0]) = [0, 0, 0, 0]"
    by (simp add: processAudioData_def processSample_default_zero int16ToBytes_zero2)
  have "take 30 (replicate 31 x) = replicate 30 x" for x :: "int16 list"
    by simp
  with silence_throttling [OF sd, of "[0, 0]" True False capture_start
         "replicate 31 ([0, 0], False)"]
  show ?thesis
    by (simp add: sd isSilence_default_zero2 Let_def enc)
qed

lemma callbacks_error_run [simp]:
  "callbacks (concat (replicate n [LogReadError, Sleep 10])) = []"
  by (induction n) simp_all

text \<open>
  C4 (amended). A failed read increments the consecutive-error counter; while the counter
  does not exceed 10 the loop logs, sleeps 10 ms and goes on to the next read, and when it
  exceeds 10 (the 11th failure in a row) the loop logs and exits, whatever reads would
  follow. Every successful read resets the counter to zero. So from a counter of zero, up
  to 10 failures leave the loop running and 11 failures end it.
\<close>

theorem read_failure_handling:
  "consecutiveErrors (snd (processAudio_cycle cfg cb ReadError st)) = consecutiveErrors st + 1
   \<and> (\<not> 10 <s consecutiveErrors st + 1 \<longrightarrow>
        processAudio_cycle cfg cb ReadError st =
          (Continue, st\<lparr>events := events st @ [LogReadError, Sleep 10],
                         consecutiveErrors := consecutiveErrors st + 1\<rparr>))
   \<and> (10 <s consecutiveErrors st + 1 \<longrightarrow>
        processAudio_cycle cfg cb ReadError st =
          (Break, st\<lparr>events := events st @ [LogReadError, LogTooManyErrors],
                      consecutiveErrors := consecutiveErrors st + 1\<rparr>))
   \<and> consecutiveErrors (snd (processAudio_cycle cfg cb (ReadOk buffer due) st)) = 0
   \<and> (consecutiveErrors st = 0 \<and> n \<le> 10 \<longrightarrow>
        processAudio_loop cfg cb (replicate n ReadError) st =
          (Continue, st\<lparr>events := events st @ concat (replicate n [LogReadError, Sleep 10]),
                         consecutiveErrors := of_nat n\<rparr>))
   \<and> (consecutiveErrors st = 0 \<longrightarrow>
        processAudio_loop cfg cb (replicate 11 ReadError @ rest) st =
          (Break, st\<lparr>events := events st @ concat (replicate 10 [LogReadError, Sleep 10])
                                 @ [LogReadError, LogTooManyErrors],
                      consecutiveErrors := 11\<rparr>))"
proof (intro conjI impI)
  show "consecutiveErrors (snd (processAudio_cycle cfg cb ReadError st)) = consecutiveErrors st + 1"
    by (simp add: cycle_error)
next
  assume "\<not> 10 <s consecutiveErrors st + 1"
  then show "processAudio_cycle cfg cb ReadError st =
          (Continue, st\<lparr>events := events st @ [LogReadError, Sleep 10],
                         consecutiveErrors := consecutiveErrors st + 1\<rparr>)"
    by (simp add: cycle_error)
next
  assume "10 <s consecutiveErrors st + 1"
  then show "processAudio_cycle cfg cb ReadError st =
          (Break, st\<lparr>events := events st @ [LogReadError, LogTooManyErrors],
                      consecutiveErrors := consecutiveErrors st + 1\<rparr>)"
    by (simp add: cycle_error)
next
  show "consecutiveErrors (snd (processAudio_cycle cfg cb (ReadOk buffer due) st)) = 0"
    by (simp add: processAudio_cycle_def Let_def processAudio_send_fields)
next
  assume a: "consecutiveErrors st = 0 \<and> n \<le> 10"
  then have "sint (consecutiveErrors st) = int 0" "0 + n \<le> 10" by simp_all
  from error_run [OF this, of cfg cb] a
  show "processAudio_loop cfg cb (replicate n ReadError) st =
          (Continue, st\<lparr>events := events st @ concat (replicate n [LogReadError, Sleep 10]),
                         consecutiveErrors := of_nat n\<rparr>)"
    by simp
next
  assume a: "consecutiveErrors st = 0"
  then have "sint (consecutiveErrors st) = int 0" "0 + 10 \<le> (10::nat)" by simp_all
  from error_run [OF this, of cfg cb] a
  have ten: "processAudio_loop cfg cb (replicate 10 ReadError) st =
          (Continue, st\<lparr>events := events st @ concat (replicate 10 [LogReadError, Sleep 10]),
                         consecutiveErrors := 10\<rparr>)"
    by simp
  have "replicate (Suc k) ReadError = replicate k ReadError @ [ReadError]" for k
    by (simp add: replicate_append_same)
  from this [of 10]
  have split: "replicate 11 ReadError @ rest = replicate 10 ReadError @ ReadError # rest"
    by simp
  show "processAudio_loop cfg cb (replicate 11 ReadError @ rest) st =
          (Break, st\<lparr>events := events st @ concat (replicate 10 [LogReadError, Sleep 10])
                                 @ [LogReadError, LogTooManyErrors],
                      consecutiveErrors := 11\<rparr>)"
    unfolding split processAudio_loop_append ten
    by (simp add: cycle_error word_sless_alt)
qed

text \<open>
  From the start: 10 failures leave the loop running; 11 end it, and the frame that would
  have followed is never read.
\<close>

theorem read_failure_handling_witness:
  "consecutiveErrors capture_start = 0
   \<and> fst (processAudio setDefaults True (replicate 10 ReadError)) = Continue
   \<and> fst (processAudio setDefaults True (replicate 11 ReadError @ [ReadOk [0, 0] False])) = Break
   \<and> frameCount (snd (processAudio setDefaults True
         (replicate 11 ReadError @ [ReadOk [0, 0] False]))) = 0"
  using read_failure_handling [of setDefaults True capture_start "[]" False 10 "[ReadOk [0, 0] False]"]
  by (simp add: processAudio_def capture_start_def word_sless_alt)

text \<open>
  C4 as stated fails: after 10 consecutive failures the loop has not halted, and the frame
  read next is counted and dispatched.
\<close>

theorem halt_after_ten_failures_counterexample:
  "fst (processAudio setDefaults True (replicate 10 ReadError)) = Continue
   \<and> frameCount (snd (processAudio setDefaults True
        (replicate 10 ReadError @ [ReadOk [0, 0] False]))) = 1
   \<and> callbacks (events (snd (processAudio setDefaults True
        (replicate 10 ReadError @ [ReadOk [0, 0] False])))) = [[0, 0, 0, 0]]"
proof -
  have "sint (consecutiveErrors capture_start) = int 0" "0 + 10 \<le> (10::nat)"
    by (simp_all add: capture_start_def)
  from error_run [OF this, of setDefaults True]
  have ten: "processAudio_loop setDefaults True (replicate 10 ReadError) capture_start =
      (Continue, capture_start\<lparr>events := events capture_start @
           concat (replicate 10 [LogReadError, Sleep 10]),
         consecutiveErrors := consecutiveErrors capture_start + of_nat 10\<rparr>)" .
  have sd: "SilenceDetection (Processing setDefaults)"
    by (simp add: setDefaults_def)
  have enc: "int16ToBytes (processAudioData setDefaults [0, 0]) = [0, 0, 0, 0]"
    by (simp add: processAudioData_def processSample_default_zero int16ToBytes_zero2)
  show ?thesis
    unfolding processAudio_def processAudio_loop_append ten
    by (simp add: cycle_silent [OF sd isSilence_default_zero2] capture_start_def
          word_sless_alt processAudio_send_fields enc Let_def)
qed

lemma cycle_not_silent_sends:
  assumes "\<not> isSilence cfg buffer"
  shows "callbacks (events (snd (processAudio_cycle cfg cb (ReadOk buffer due) st))) =
           callbacks (events st) @ (if cb then [int16ToBytes (processAudioData cfg buffer)] else [])
       \<and> silenceCount (snd (processAudio_cycle cfg cb (ReadOk buffer due) st)) = silenceCount st"
  using assms
  by (cases "SilenceDetection (Processing cfg)")
     (simp_all add: cycle_not_silent cycle_no_detection processAudio_send_fields)

text \<open>
  C10 (amended). isSilence compares against the configured threshold converted to
  \<open>int16\<close>, that is against its low 16 bits read as a signed number \<open>t\<close>. Unless \<open>t\<close> is
  -32768, a frame is silent exactly when every sample's absolute value is at most \<open>t\<close>; so
  for \<open>-32768 < t < 0\<close> every non-empty frame is non-silent. For \<open>t = -32768\<close> the negation
  wraps to -32768 too, and a frame is silent exactly when all its samples are -32768.
  Hence for every negative \<open>t\<close> a frame holding a sample other than -32768 (an all-zero
  frame, say) is non-silent: the cycle does not count it as silence and dispatches it.
\<close>

theorem isSilence_wrapped_threshold:
  "sint (go_int16 (SilenceThreshold (Processing cfg))) =
     signed_take_bit 15 (sint (SilenceThreshold (Processing cfg)))
   \<and> (sint (go_int16 (SilenceThreshold (Processing cfg))) \<noteq> - 32768 \<longrightarrow>
        (isSilence cfg buffer \<longleftrightarrow>
           (\<forall>b \<in> set buffer. \<bar>sint b\<bar> \<le> sint (go_int16 (SilenceThreshold (Processing cfg))))))
   \<and> (sint (go_int16 (SilenceThreshold (Processing cfg))) = - 32768 \<longrightarrow>
        (isSilence cfg buffer \<longleftrightarrow> (\<forall>b \<in> set buffer. sint b = - 32768)))
   \<and> (sint (go_int16 (SilenceThreshold (Processing cfg))) < 0
        \<and> (\<exists>b \<in> set buffer. sint b \<noteq> - 32768) \<longrightarrow>
        \<not> isSilence cfg buffer
        \<and> silenceCount (snd (processAudio_cycle cfg cb (ReadOk buffer due) st)) = silenceCount st
        \<and> callbacks (events (snd (processAudio_cycle cfg cb (ReadOk buffer due) st))) =
            callbacks (events st) @
            (if cb then [int16ToBytes (processAudioData cfg buffer)] else []))
   \<and> (- 32768 < sint (go_int16 (SilenceThreshold (Processing cfg)))
        \<and> sint (go_int16 (SilenceThreshold (Processing cfg))) < 0 \<and> buffer \<noteq> [] \<longrightarrow>
        \<not> isSilence cfg buffer)"
proof -
  let ?t = "go_int16 (SilenceThreshold (Processing cfg))"
  have wrap: "sint ?t = signed_take_bit 15 (sint (SilenceThreshold (Processing cfg)))"
    by (rule sint_go_int16_wrap)
  have a: "isSilence cfg buffer \<longleftrightarrow> (\<forall>b \<in> set buffer. \<bar>sint b\<bar> \<le> sint ?t)"
    if "sint ?t \<noteq> - 32768"
    using that by (simp add: isSilence_def isSilence_loop_iff)
  have b: "isSilence cfg buffer \<longleftrightarrow> (\<forall>b \<in> set buffer. sint b = - 32768)"
    if "sint ?t = - 32768"
    using that by (simp add: isSilence_def isSilence_loop_min)
  have c: "\<not> isSilence cfg buffer"
    if "sint ?t < 0" "\<exists>b \<in> set buffer. sint b \<noteq> - 32768"
  proof (cases "sint ?t = - 32768")
    case True
    then show ?thesis using that b by blast
  next
    case False
    from that obtain x where "x \<in> set buffer" by blast
    moreover have "\<not> \<bar>sint x\<bar> \<le> sint ?t" using that by linarith
    ultimately show ?thesis using a [OF False] by blast
  qed
  have d: "\<not> isSilence cfg buffer"
    if "- 32768 < sint ?t" "sint ?t < 0" "buffer \<noteq> []"
  proof -
    from that obtain x where "x \<in> set buffer" by (cases buffer) auto
    moreover have "\<not> \<bar>sint x\<bar> \<le> sint ?t" using that by linarith
    moreover have "sint ?t \<noteq> - 32768" using that by simp
    ultimately show ?thesis using a by blast
  qed
  show ?thesis
    using wrap a b c d cycle_not_silent_sends [of cfg buffer cb due st] by blast
qed

text \<open>
  The configured value 40000 acts as -25536; the all-zero frame is non-silent and sent.
\<close>

theorem isSilence_wrapped_threshold_witness:
  "sint (go_int16 (40000 :: go_int)) = - 25536
   \<and> \<not> isSilence (setDefaults\<lparr>Processing :=
        (Processing setDefaults)\<lparr>SilenceThreshold := 40000\<rparr>\<rparr>) [0, 0]
   \<and> callbacks (events (snd (processAudio_cycle (setDefaults\<lparr>Processing :=
        (Processing setDefaults)\<lparr>SilenceThreshold := 40000\<rparr>\<rparr>) True
          (ReadOk [0, 0] False) capture_start))) = [[0, 0, 0, 0]]"
proof -
  let ?cfg = "setDefaults\<lparr>Processing := (Processing setDefaults)\<lparr>SilenceThreshold := 40000\<rparr>\<rparr>"
  have t: "sint (go_int16 (SilenceThreshold (Processing ?cfg))) = - 25536"
    by (simp add: go_int16_def)
  have ps: "processSample ?cfg 0 = 0"
    by (simp add: processSample_def setDefaults_def go_int16_of_float_def float_trunc_def Let_def
          fmul_def float64_round_def)
  have enc: "int16ToBytes (processAudioData ?cfg [0, 0]) = [0, 0, 0, 0]"
    by (simp add: processAudioData_def ps int16ToBytes_zero2)
  from isSilence_wrapped_threshold [of ?cfg "[0, 0]" True False capture_start]
  show ?thesis
    by (simp add: t enc capture_start_def go_int16_def)
qed

text \<open>
  C10 as stated fails at the configured value 32768: the effective threshold is -32768,
  which is negative, and the frame whose samples are all -32768 is classified silent.
\<close>

theorem isSilence_threshold_32768_counterexample:
  "sint (go_int16 (SilenceThreshold (Processing (setDefaults\<lparr>Processing :=
        (Processing setDefaults)\<lparr>SilenceThreshold := 32768\<rparr>\<rparr>)))) < 0
   \<and> isSilence (setDefaults\<lparr>Processing :=
        (Processing setDefaults)\<lparr>SilenceThreshold := 32768\<rparr>\<rparr>) [- 32768, - 32768]"
  by (simp add: isSilence_def go_int16_def setDefaults_def word_sless_alt)

section \<open>Properties of calculateOptimalBufferSize\<close>

lemma sint_go_int_of_int:
  "- (2 ^ 63) \<le> x \<Longrightarrow> x < 2 ^ 63 \<Longrightarrow> sint (word_of_int x :: go_int) = x"
  unfolding sint_sbintrunc' by (simp add: signed_take_bit_int_eq_self)

lemma sint_pow2_go_int: "k \<le> 62 \<Longrightarrow> sint (2 ^ k :: go_int) = 2 ^ k"
proof -
  assume k: "k \<le> 62"
  have "- (2 ^ 63) \<le> (2 :: int) ^ k"
    by (rule order_trans [of _ 0]) simp_all
  moreover have "(2 :: int) ^ k < 2 ^ 63"
    using k by (intro power_strict_increasing) simp_all
  ultimately have "sint (word_of_int (2 ^ k) :: go_int) = 2 ^ k"
    by (rule sint_go_int_of_int)
  then show ?thesis by simp
qed

lemma push_bit_pow2: "push_bit 1 (2 ^ k :: go_int) = 2 ^ Suc k"
  by (simp add: push_bit_eq_mult)

lemma powerOfTwo_loop_run:
  "k \<le> 62 \<Longrightarrow> sint t \<le> 2 ^ 62 \<Longrightarrow> (0 < k \<longrightarrow> 2 ^ (k - 1) < sint t) \<Longrightarrow>
     \<exists>j. j \<le> 62 \<and> powerOfTwo_loop (2 ^ k) t = Some (2 ^ j)
        \<and> sint t \<le> 2 ^ j \<and> (0 < j \<longrightarrow> 2 ^ (j - 1) < sint t)"
proof (induction "62 - k" arbitrary: k)
  case 0
  then have k: "k = 62" by simp
  have "\<not> (2 ^ k :: go_int) <s t"
    using 0 by (simp add: word_sless_alt sint_pow2_go_int)
  then have "powerOfTwo_loop (2 ^ k) t = Some (2 ^ k)"
    by (subst powerOfTwo_loop.simps) simp
  then show ?case using 0 k by (intro exI [of _ k]) simp
next
  case (Suc n)
  show ?case
  proof (cases "(2 ^ k :: go_int) <s t")
    case True
    then have lt: "2 ^ k < sint t"
      using Suc.prems by (simp add: word_sless_alt sint_pow2_go_int)
    have k: "Suc k \<le> 62" using Suc.hyps(2) by simp
    have n: "n = 62 - Suc k" using Suc.hyps(2) by simp
    from Suc.hyps(1) [OF n k Suc.prems(2)] lt
    obtain j where j: "j \<le> 62" "powerOfTwo_loop (2 ^ Suc k) t = Some (2 ^ j)"
        "sint t \<le> 2 ^ j" "0 < j \<longrightarrow> 2 ^ (j - 1) < sint t"
      by auto
    have "powerOfTwo_loop (2 ^ k) t = powerOfTwo_loop (2 ^ Suc k) t"
      by (subst powerOfTwo_loop.simps) (simp only: True if_True push_bit_pow2)
    with j show ?thesis by (intro exI [of _ j]) simp
  next
    case False
    then have "sint t \<le> 2 ^ k"
      using Suc.prems by (simp add: word_sless_alt sint_pow2_go_int)
    moreover have "powerOfTwo_loop (2 ^ k) t = Some (2 ^ k)"
      using False by (subst powerOfTwo_loop.simps) simp
    ultimately show ?thesis using Suc.prems by (intro exI [of _ k]) simp
  qed
qed

lemma least_pow2:
  fixes x :: int
  assumes "x \<le> 2 ^ j" "0 < j \<longrightarrow> 2 ^ (j - 1) < x"
  shows "\<forall>i. x \<le> 2 ^ i \<longrightarrow> j \<le> i"
proof (intro allI impI)
  fix i assume xi: "x \<le> 2 ^ i"
  show "j \<le> i"
  proof (rule ccontr)
    assume "\<not> j \<le> i"
    then have "i \<le> j - 1" "0 < j" by simp_all
    then have "(2::int) ^ i \<le> 2 ^ (j - 1)" by (intro power_increasing) simp_all
    moreover have "2 ^ (j - 1) < x" using assms(2) \<open>0 < j\<close> by blast
    ultimately show False using xi by linarith
  qed
qed

lemma powerOfTwo_loop_least:
  assumes "sint t \<le> 2 ^ 62"
  shows "\<exists>j. j \<le> 62 \<and> powerOfTwo_loop 1 t = Some (2 ^ j)
        \<and> sint t \<le> 2 ^ j \<and> (\<forall>i. sint t \<le> 2 ^ i \<longrightarrow> j \<le> i)"
proof -
  from powerOfTwo_loop_run [of 0 t] assms
  obtain j where j: "j \<le> 62" "powerOfTwo_loop 1 t = Some (2 ^ j)"
        "sint t \<le> 2 ^ j" "0 < j \<longrightarrow> 2 ^ (j - 1) < sint t"
    by auto
  from least_pow2 [OF j(3) j(4)] j show ?thesis by blast
qed

lemma clamped_product_fits:
  fixes p c :: int
  assumes "0 \<le> p" "p \<le> 2048" "- (2 ^ 52) \<le> c" "c < 2 ^ 52"
  shows "- (2 ^ 63) \<le> p * c \<and> p * c < 2 ^ 63"
proof (cases "0 \<le> c")
  case True
  then have "p * c \<le> 2048 * (2 ^ 52 - 1)"
    using assms by (intro mult_mono) simp_all
  moreover have "0 \<le> p * c" using True assms by simp
  ultimately show ?thesis by simp
next
  case False
  then have "p * (- c) \<le> 2048 * 2 ^ 52"
    using assms by (intro mult_mono) simp_all
  moreover have "p * c \<le> 0" using False assms by (simp add: mult_nonneg_nonpos)
  ultimately show ?thesis by simp
qed

lemma sint_go_int_mult:
  "- (2 ^ 63) \<le> sint (a :: go_int) * sint b \<Longrightarrow> sint a * sint b < 2 ^ 63 \<Longrightarrow>
     sint (a * b) = sint a * sint b"
  by (simp add: sint_word_mult signed_take_bit_int_eq_self)

lemma sint_clamp:
  assumes "j \<le> 62"
  shows "sint (let p = (if (2 ^ j :: go_int) <s 256 then 256 else (2 ^ j :: go_int))
               in if 2048 <s p then 2048 else p) = max 256 (min 2048 (2 ^ j))"
  using assms by (auto simp: word_sless_alt sint_pow2_go_int Let_def)

text \<open>
  C2 (amended). With configured buffer size \<open>B\<close>, channel count \<open>C\<close> and sample rate \<open>R\<close>:
  if \<open>B\<close> is positive and \<open>B \<times> C\<close> fits the 64-bit integer, the effective size is \<open>B \<times> C\<close>
  exactly. Otherwise, with \<open>T\<close> the target \<open>R \<times> 0.02\<close> truncated to an integer, \<open>T\<close> from
  \<open>-2^63\<close> to \<open>2^62\<close> and \<open>|C|\<close> below \<open>2^52\<close>, the function returns \<open>P \<times> C\<close>, where \<open>P\<close> is
  the smallest power of two that is at least \<open>T\<close>, clamped into \<open>[256, 2048]\<close>.
\<close>

theorem calculateOptimalBufferSize_value:
  "(0 < sint (BufferSize (Audio cfg))
      \<and> - (2 ^ 63) \<le> sint (BufferSize (Audio cfg)) * sint (Channels (Audio cfg))
      \<and> sint (BufferSize (Audio cfg)) * sint (Channels (Audio cfg)) < 2 ^ 63 \<longrightarrow>
      (\<exists>r. calculateOptimalBufferSize cfg = Some r
         \<and> sint r = sint (BufferSize (Audio cfg)) * sint (Channels (Audio cfg))))
   \<and> (sint (BufferSize (Audio cfg)) \<le> 0
      \<and> - (2 ^ 63) \<le> float_trunc (SampleRate (Audio cfg) * 0.02)
      \<and> float_trunc (SampleRate (Audio cfg) * 0.02) \<le> 2 ^ 62
      \<and> - (2 ^ 52) \<le> sint (Channels (Audio cfg)) \<and> sint (Channels (Audio cfg)) < 2 ^ 52 \<longrightarrow>
      (\<exists>r k. calculateOptimalBufferSize cfg = Some r
         \<and> float_trunc (SampleRate (Audio cfg) * 0.02) \<le> 2 ^ k
         \<and> (\<forall>j. float_trunc (SampleRate (Audio cfg) * 0.02) \<le> 2 ^ j \<longrightarrow> k \<le> j)
         \<and> sint r = max 256 (min 2048 (2 ^ k)) * sint (Channels (Audio cfg))))"
proof (intro conjI impI)
  assume a: "0 < sint (BufferSize (Audio cfg))
      \<and> - (2 ^ 63) \<le> sint (BufferSize (Audio cfg)) * sint (Channels (Audio cfg))
      \<and> sint (BufferSize (Audio cfg)) * sint (Channels (Audio cfg)) < 2 ^ 63"
  then have "0 <s BufferSize (Audio cfg)" by (simp add: word_sless_alt)
  then have "calculateOptimalBufferSize cfg =
      Some (BufferSize (Audio cfg) * Channels (Audio cfg))"
    by (simp add: calculateOptimalBufferSize_def)
  moreover have "sint (BufferSize (Audio cfg) * Channels (Audio cfg)) =
      sint (BufferSize (Audio cfg)) * sint (Channels (Audio cfg))"
    using a by (intro sint_go_int_mult) simp_all
  ultimately show "\<exists>r. calculateOptimalBufferSize cfg = Some r
         \<and> sint r = sint (BufferSize (Audio cfg)) * sint (Channels (Audio cfg))"
    by simp
next
  let ?target = "float_trunc (SampleRate (Audio cfg) * 0.02)"
  let ?C = "Channels (Audio cfg)"
  assume a: "sint (BufferSize (Audio cfg)) \<le> 0
      \<and> - (2 ^ 63) \<le> ?target \<and> ?target \<le> 2 ^ 62
      \<and> - (2 ^ 52) \<le> sint ?C \<and> sint ?C < 2 ^ 52"
  then have nb: "\<not> 0 <s BufferSize (Audio cfg)" by (simp add: word_sless_alt)
  have t: "sint (go_int_of_float (SampleRate (Audio cfg) * 0.02)) = ?target"
    unfolding go_int_of_float_def using a by (intro sint_go_int_of_int) simp_all
  then have "sint (go_int_of_float (SampleRate (Audio cfg) * 0.02)) \<le> 2 ^ 62"
    using a by simp
  from powerOfTwo_loop_least [OF this] t
  obtain k where k: "k \<le> 62"
      "powerOfTwo_loop 1 (go_int_of_float (SampleRate (Audio cfg) * 0.02)) = Some (2 ^ k)"
      "?target \<le> 2 ^ k" "\<forall>i. ?target \<le> 2 ^ i \<longrightarrow> k \<le> i"
    by auto
  define p :: go_int where
    "p = (let p = (if (2 ^ k :: go_int) <s 256 then 256 else 2 ^ k)
          in if 2048 <s p then 2048 else p)"
  have sp: "sint p = max 256 (min 2048 (2 ^ k))"
    unfolding p_def by (rule sint_clamp [OF k(1)])
  have res: "calculateOptimalBufferSize cfg = Some (p * ?C)"
    using nb k(2) by (simp add: calculateOptimalBufferSize_def p_def Let_def)
  have "0 \<le> sint p" "sint p \<le> 2048" using sp by simp_all
  from clamped_product_fits [OF this] a
  have "sint (p * ?C) = sint p * sint ?C"
    by (intro sint_go_int_mult) simp_all
  with res sp k show "\<exists>r k. calculateOptimalBufferSize cfg = Some r
         \<and> ?target \<le> 2 ^ k \<and> (\<forall>j. ?target \<le> 2 ^ j \<longrightarrow> k \<le> j)
         \<and> sint r = max 256 (min 2048 (2 ^ k)) * sint ?C"
    by (intro exI [of _ "p * ?C"] exI [of _ k]) simp
qed

lemma powerOfTwo_loop_zero:
  assumes "0 <s t"
  shows "powerOfTwo_loop 0 t = None"
proof (rule ccontr)
  assume "powerOfTwo_loop 0 t \<noteq> None"
  then obtain y where y: "powerOfTwo_loop 0 t = Some y" by auto
  have "\<not> (0 = (0 :: go_int) \<and> 0 <s t)"
  proof (rule powerOfTwo_loop.raw_induct
           [where P = "\<lambda>p t' y'. \<not> (p = 0 \<and> 0 <s t')", OF _ y])
    fix f :: "go_int \<Rightarrow> go_int \<Rightarrow> go_int option" and p t' :: go_int and y' :: go_int
    assume ih: "\<And>a b c. f a b = Some c \<Longrightarrow> \<not> (a = 0 \<and> 0 <s b)"
      and step: "(if p <s t' then f (push_bit 1 p) t' else Some p) = Some y'"
    show "\<not> (p = 0 \<and> 0 <s t')"
    proof
      assume z: "p = 0 \<and> 0 <s t'"
      with step have "f 0 t' = Some y'" by simp
      from ih [OF this] z show False by simp
    qed
  qed
  with assms show False by simp
qed

lemma sint_pow2_63: "sint (2 ^ 63 :: go_int) = - (2 ^ 63)"
  by simp

lemma powerOfTwo_loop_diverges_from:
  "k \<le> 63 \<Longrightarrow> 2 ^ 62 < sint t \<Longrightarrow> powerOfTwo_loop (2 ^ k) t = None"
proof (induction "63 - k" arbitrary: k)
  case 0
  then have k: "k = 63" by simp
  have pos: "0 < sint t"
    by (rule less_trans [OF _ 0(3)]) simp
  have lt: "(2 ^ 63 :: go_int) <s t"
    using pos unfolding word_sless_alt sint_pow2_63 by simp
  have "0 <s t" using pos by (simp add: word_sless_alt)
  then have "powerOfTwo_loop 0 t = None" by (rule powerOfTwo_loop_zero)
  moreover have "push_bit 1 (2 ^ 63 :: go_int) = 0" by simp
  ultimately show ?case
    unfolding k by (subst powerOfTwo_loop.simps) (simp only: lt if_True)
next
  case (Suc n)
  then have k: "k \<le> 62" "Suc k \<le> 63" "n = 63 - Suc k" by simp_all
  have "(2::int) ^ k \<le> 2 ^ 62" using k(1) by (intro power_increasing) simp_all
  then have lt: "(2 ^ k :: go_int) <s t"
    using Suc.prems k(1) by (simp add: word_sless_alt sint_pow2_go_int)
  have "powerOfTwo_loop (2 ^ k) t = powerOfTwo_loop (2 ^ Suc k) t"
    by (subst powerOfTwo_loop.simps) (simp only: lt if_True push_bit_pow2)
  with Suc.hyps(1) [OF k(3) k(2) Suc.prems(2)] show ?case by simp
qed

lemma powerOfTwo_loop_diverges:
  "2 ^ 62 < sint t \<Longrightarrow> powerOfTwo_loop 1 t = None"
  using powerOfTwo_loop_diverges_from [of 0 t] by simp

text \<open>
  The default configuration (48000 Hz, 2 channels, no buffer size): target 960, size
  1024 \<times> 2. With the buffer size 512 configured: 512 \<times> 2.
\<close>

theorem calculateOptimalBufferSize_value_witness:
  "sint (BufferSize (Audio setDefaults)) \<le> 0
   \<and> float_trunc (SampleRate (Audio setDefaults) * 0.02) = 960
   \<and> calculateOptimalBufferSize setDefaults = Some 2048
   \<and> calculateOptimalBufferSize
       (setDefaults\<lparr>Audio := (Audio setDefaults)\<lparr>BufferSize := 512\<rparr>\<rparr>) = Some 1024"
  using calculateOptimalBufferSize_value [of setDefaults]
        calculateOptimalBufferSize_value
          [of "setDefaults\<lparr>Audio := (Audio setDefaults)\<lparr>BufferSize := 512\<rparr>\<rparr>"]
  by (simp add: calculateOptimalBufferSize_def powerOfTwo_loop.simps setDefaults_def
        go_int_of_float_def float_trunc_def word_sless_alt)

text \<open>
  C2 as stated fails. At 12801 Hz the target is 256.02, the smallest power of two at least
  that is 512, and the code (which truncates the target to 256 first) returns 256 for one
  channel. A configured size of \<open>2^62\<close> with 2 channels wraps to a negative number. At a
  sample rate whose target exceeds \<open>2^62\<close> the doubling wraps to 0 and the loop never ends.
\<close>

theorem calculateOptimalBufferSize_counterexample:
  "calculateOptimalBufferSize
     \<lparr>Audio = \<lparr>SampleRate = 12801, Channels = 1, BufferSize = 0\<rparr>,
      Processing = Processing setDefaults\<rparr> = Some 256
   \<and> (256 :: real) < 12801 * 0.02 \<and> (12801 :: real) * 0.02 \<le> 512
   \<and> calculateOptimalBufferSize
       \<lparr>Audio = \<lparr>SampleRate = 48000, Channels = 2, BufferSize = 4611686018427387904\<rparr>,
        Processing = Processing setDefaults\<rparr> = Some (- 9223372036854775808)
   \<and> sint (- 9223372036854775808 :: go_int) < 0
   \<and> calculateOptimalBufferSize
       \<lparr>Audio = \<lparr>SampleRate = 345876451382054092800, Channels = 2, BufferSize = 0\<rparr>,
        Processing = Processing setDefaults\<rparr> = None"
proof -
  have a: "calculateOptimalBufferSize
     \<lparr>Audio = \<lparr>SampleRate = 12801, Channels = 1, BufferSize = 0\<rparr>,
      Processing = Processing setDefaults\<rparr> = Some 256"
    by (simp add: calculateOptimalBufferSize_def powerOfTwo_loop.simps
        go_int_of_float_def float_trunc_def word_sless_alt)
  have b: "calculateOptimalBufferSize
       \<lparr>Audio = \<lparr>SampleRate = 48000, Channels = 2, BufferSize = 4611686018427387904\<rparr>,
        Processing = Processing setDefaults\<rparr> = Some (- 9223372036854775808)"
    by (simp add: calculateOptimalBufferSize_def word_sless_alt)
  have t: "float_trunc (345876451382054092800 * 0.02) = 6917529027641081856"
    by (simp add: float_trunc_def)
  have "2 ^ 62 < sint (go_int_of_float (345876451382054092800 * 0.02))"
    unfolding go_int_of_float_def t by simp
  then have c: "calculateOptimalBufferSize
       \<lparr>Audio = \<lparr>SampleRate = 345876451382054092800, Channels = 2, BufferSize = 0\<rparr>,
        Processing = Processing setDefaults\<rparr> = None"
    by (simp add: calculateOptimalBufferSize_def powerOfTwo_loop_diverges word_sless_alt)
  show ?thesis using a b c by simp
qed

section \<open>Properties of the rounding to float64\<close>


























section \<open>Properties of processAudioData\<close>









section \<open>Properties of the TCP server\<close>

lemma TCPServer_Broadcast_loop_result:
  "TCPServer_Broadcast_loop writeOk data cs ts failed0 = (ts', failed) \<Longrightarrow>
     clients ts' = clients ts \<and> conn_closed ts' = conn_closed ts
     \<and> failed = failed0 @ filter (\<lambda>c. \<not> writeOk c) cs
     \<and> (\<forall>c. c \<notin> set cs \<or> \<not> writeOk c \<longrightarrow> delivered ts' c = delivered ts c)
     \<and> (distinct cs \<longrightarrow> (\<forall>c \<in> set cs. writeOk c \<longrightarrow> delivered ts' c = delivered ts c @ [data]))"
proof (induction cs arbitrary: ts failed0)
  case Nil
  then show ?case by simp
next
  case (Cons a cs)
  show ?case
  proof (cases "writeOk a")
    case False
    with Cons.prems have
      "TCPServer_Broadcast_loop writeOk data cs ts (failed0 @ [a]) = (ts', failed)"
      by simp
    from Cons.IH [OF this] False show ?thesis by auto
  next
    case True
    let ?ts = "ts\<lparr>delivered := (delivered ts)(a := delivered ts a @ [data])\<rparr>"
    from True Cons.prems have
      "TCPServer_Broadcast_loop writeOk data cs ?ts failed0 = (ts', failed)"
      by simp
    from Cons.IH [OF this] True show ?thesis by auto
  qed
qed

lemma cleanupClients_result:
  "clients (cleanupClients failed ts) = filter (\<lambda>c. c \<notin> set failed) (clients ts)
   \<and> (\<forall>c. conn_closed (cleanupClients failed ts) c \<longleftrightarrow> conn_closed ts c \<or> c \<in> set failed)
   \<and> delivered (cleanupClients failed ts) = delivered ts"
proof (induction failed arbitrary: ts)
  case Nil
  then show ?case by simp
next
  case (Cons a failed)
  have "filter (\<lambda>c. c \<notin> set failed) (removeAll a (clients ts)) =
        filter (\<lambda>c. c \<notin> set (a # failed)) (clients ts)"
    by (auto simp: removeAll_filter_not_eq intro: filter_cong)
  with Cons.IH [of "ts\<lparr>clients := removeAll a (clients ts), conn_closed := (conn_closed ts)(a := True)\<rparr>"]
  show ?case by auto
qed

text \<open>
  The list of clients is without repetition in every state the server reaches, as the
  keys of a map are.
\<close>

lemma TCPServer_Broadcast_clients:
  "clients (fst (TCPServer_Broadcast writeOk data ts)) = clients ts"
proof (cases "TCPServer_Broadcast_loop writeOk data (clients ts) ts []")
  case (Pair ts' failed)
  from TCPServer_Broadcast_loop_result [OF this] Pair show ?thesis
    by (simp add: TCPServer_Broadcast_def)
qed

lemma distinct_clients_invariant:
  "distinct (clients NewTCPServer)"
  "distinct (clients ts) \<Longrightarrow> distinct (clients (addClient c ts))"
  "distinct (clients ts) \<Longrightarrow> distinct (clients (fst (TCPServer_Broadcast writeOk data ts)))"
  "distinct (clients ts) \<Longrightarrow> distinct (clients (cleanupClients failed ts))"
  by (simp_all add: NewTCPServer_def addClient_def TCPServer_Broadcast_clients
        cleanupClients_result)

text \<open>
  C7. In one Broadcast call whose client set holds \<open>A\<close>, whose write succeeds, and \<open>B\<close>,
  whose write fails (an error, or the 2-second deadline), the frame is delivered to \<open>A\<close>,
  nothing is delivered to \<open>B\<close>, and \<open>B\<close> is among the failed clients handed to
  cleanupClients; cleanupClients removes \<open>B\<close> from the set and closes it, and leaves \<open>A\<close>
  registered and as open as it was. With an empty client set the call changes nothing
  and starts no cleanup.
\<close>

theorem TCPServer_Broadcast_failure_isolation:
  "(distinct (clients ts) \<and> A \<in> set (clients ts) \<and> B \<in> set (clients ts)
      \<and> writeOk A \<and> \<not> writeOk B \<longrightarrow>
      (\<exists>ts' failedClients.
         TCPServer_Broadcast writeOk data ts = (ts', Some failedClients)
         \<and> delivered ts' A = delivered ts A @ [data]
         \<and> delivered ts' B = delivered ts B
         \<and> clients ts' = clients ts
         \<and> B \<in> set failedClients \<and> A \<notin> set failedClients
         \<and> B \<notin> set (clients (cleanupClients failedClients ts'))
         \<and> conn_closed (cleanupClients failedClients ts') B
         \<and> A \<in> set (clients (cleanupClients failedClients ts'))
         \<and> (conn_closed (cleanupClients failedClients ts') A \<longleftrightarrow> conn_closed ts A)))
   \<and> (clients ts0 = [] \<longrightarrow> TCPServer_Broadcast writeOk data ts0 = (ts0, None))"
proof (intro conjI impI)
  assume a: "distinct (clients ts) \<and> A \<in> set (clients ts) \<and> B \<in> set (clients ts)
      \<and> writeOk A \<and> \<not> writeOk B"
  obtain ts' failed where
    loop: "TCPServer_Broadcast_loop writeOk data (clients ts) ts [] = (ts', failed)"
    by (cases "TCPServer_Broadcast_loop writeOk data (clients ts) ts []")
  note r = TCPServer_Broadcast_loop_result [OF loop]
  from r a have f: "failed = filter (\<lambda>c. \<not> writeOk c) (clients ts)" by simp
  with a have B: "B \<in> set failed" and A: "A \<notin> set failed" by simp_all
  then have ne: "0 < length failed" by (cases failed) auto
  have bc: "TCPServer_Broadcast writeOk data ts = (ts', Some failed)"
    using a loop ne by (auto simp: TCPServer_Broadcast_def)
  note c = cleanupClients_result [of failed ts']
  show "\<exists>ts' failedClients.
         TCPServer_Broadcast writeOk data ts = (ts', Some failedClients)
         \<and> delivered ts' A = delivered ts A @ [data]
         \<and> delivered ts' B = delivered ts B
         \<and> clients ts' = clients ts
         \<and> B \<in> set failedClients \<and> A \<notin> set failedClients
         \<and> B \<notin> set (clients (cleanupClients failedClients ts'))
         \<and> conn_closed (cleanupClients failedClients ts') B
         \<and> A \<in> set (clients (cleanupClients failedClients ts'))
         \<and> (conn_closed (cleanupClients failedClients ts') A \<longleftrightarrow> conn_closed ts A)"
  proof (intro exI [of _ ts'] exI [of _ failed] conjI)
    show "TCPServer_Broadcast writeOk data ts = (ts', Some failed)" by (rule bc)
    show "delivered ts' A = delivered ts A @ [data]" using r a by blast
    show "delivered ts' B = delivered ts B" using r a by blast
    show "clients ts' = clients ts" using r by blast
    show "B \<in> set failed" by (rule B)
    show "A \<notin> set failed" by (rule A)
    show "B \<notin> set (clients (cleanupClients failed ts'))" using c B by simp
    show "conn_closed (cleanupClients failed ts') B" using c B by simp
    show "A \<in> set (clients (cleanupClients failed ts'))" using c A r a by simp
    show "conn_closed (cleanupClients failed ts') A \<longleftrightarrow> conn_closed ts A" using c A r a by simp
  qed
next
  assume "clients ts0 = []"
  then show "TCPServer_Broadcast writeOk data ts0 = (ts0, None)"
    by (simp add: TCPServer_Broadcast_def)
qed

text \<open>
  Clients 1 (responsive) and 2 (failing): the frame reaches 1, and 2 is removed and closed.
\<close>

theorem TCPServer_Broadcast_failure_isolation_witness:
  "distinct (clients (addClient 2 (addClient 1 NewTCPServer)))
   \<and> TCPServer_Broadcast (\<lambda>c. c = 1) [7, 9] (addClient 2 (addClient 1 NewTCPServer)) =
       (NewTCPServer\<lparr>clients := [2, 1], delivered := (\<lambda>_. [])(1 := [[7, 9]])\<rparr>, Some [2])
   \<and> clients (cleanupClients [2]
        (NewTCPServer\<lparr>clients := [2, 1], delivered := (\<lambda>_. [])(1 := [[7, 9]])\<rparr>)) = [1]
   \<and> conn_closed (cleanupClients [2]
        (NewTCPServer\<lparr>clients := [2, 1], delivered := (\<lambda>_. [])(1 := [[7, 9]])\<rparr>)) 2
   \<and> TCPServer_Broadcast (\<lambda>c. c = 1) [7, 9] NewTCPServer = (NewTCPServer, None)"
  using TCPServer_Broadcast_failure_isolation
    [of "addClient 2 (addClient 1 NewTCPServer)" 1 2 "\<lambda>c. c = 1" "[7, 9]" NewTCPServer]
  by (simp add: TCPServer_Broadcast_def addClient_def NewTCPServer_def)

section \<open>Properties of the HTTP server\<close>

lemma http_Write_fields [simp]:
  "config (http_Write ok w d hs) = config hs"
  "streamClients (http_Write ok w d hs) = streamClients hs"
  "audioBuffer (http_Write ok w d hs) = audioBuffer hs"
  "bufferSize (http_Write ok w d hs) = bufferSize hs"
  by (simp_all add: http_Write_def)

lemma http_Flush_fields [simp]:
  "config (http_Flush fl w hs) = config hs"
  "streamClients (http_Flush fl w hs) = streamClients hs"
  "audioBuffer (http_Flush fl w hs) = audioBuffer hs"
  "bufferSize (http_Flush fl w hs) = bufferSize hs"
  by (simp_all add: http_Flush_def)

lemma fold_http_Write_fields [simp]:
  "config (fold (http_Write ok w) ds hs) = config hs"
  "streamClients (fold (http_Write ok w) ds hs) = streamClients hs"
  "audioBuffer (fold (http_Write ok w) ds hs) = audioBuffer hs"
  "bufferSize (fold (http_Write ok w) ds hs) = bufferSize hs"
  by (induction ds arbitrary: hs) simp_all

lemma fold_http_Write_wire:
  "wire (fold (http_Write ok w) ds hs) =
     (wire hs)(w := wire hs w @ (if ok w then map Write ds else []))"
  by (induction ds arbitrary: hs) (auto simp: http_Write_def fun_eq_iff)

lemma http_Flush_wire:
  "wire (http_Flush fl w hs) = (wire hs)(w := wire hs w @ (if fl w then [Flush] else []))"
  by (auto simp: http_Flush_def fun_eq_iff)

lemma sendBufferedAudio_fields [simp]:
  "config (sendBufferedAudio ok fl w hs) = config hs"
  "streamClients (sendBufferedAudio ok fl w hs) = streamClients hs"
  "audioBuffer (sendBufferedAudio ok fl w hs) = audioBuffer hs"
  "bufferSize (sendBufferedAudio ok fl w hs) = bufferSize hs"
  by (simp_all add: sendBufferedAudio_def)

lemma sendBufferedAudio_wire:
  "wire (sendBufferedAudio ok fl w hs) =
     (wire hs)(w := wire hs w @ (if ok w then map Write (audioBuffer hs) else [])
                              @ (if fl w then [Flush] else []))"
  by (simp add: sendBufferedAudio_def http_Flush_wire fold_http_Write_wire fun_eq_iff)

lemma handleWavStream_fields [simp]:
  "config (handleWavStream ok fl w hs) = config hs"
  "streamClients (handleWavStream ok fl w hs) = List.insert w (streamClients hs)"
  "audioBuffer (handleWavStream ok fl w hs) = audioBuffer hs"
  "bufferSize (handleWavStream ok fl w hs) = bufferSize hs"
  by (simp_all add: handleWavStream_def addStreamClient_def writeWAVHeader_def Let_def)

lemma handleWavStream_wire:
  "wire (handleWavStream ok fl w hs) =
     (wire hs)(w := wire hs w
        @ (if ok w then map Write (wavHeaderWrites (config hs)) else [])
        @ (if fl w then [Flush] else [])
        @ (if ok w then map Write (audioBuffer hs) else [])
        @ (if fl w then [Flush] else []))"
  by (simp add: handleWavStream_def addStreamClient_def writeWAVHeader_def Let_def
        sendBufferedAudio_wire http_Flush_wire fold_http_Write_wire fun_eq_iff)

lemma broadcastHTTPStream_loop_fields [simp]:
  "config (fst (broadcastHTTPStream_loop ok fl data cs hs failed0)) = config hs"
  "streamClients (fst (broadcastHTTPStream_loop ok fl data cs hs failed0)) = streamClients hs"
  "audioBuffer (fst (broadcastHTTPStream_loop ok fl data cs hs failed0)) = audioBuffer hs"
  "bufferSize (fst (broadcastHTTPStream_loop ok fl data cs hs failed0)) = bufferSize hs"
  by (induction cs arbitrary: hs failed0) simp_all

lemma broadcastHTTPStream_loop_failed:
  "snd (broadcastHTTPStream_loop ok fl data cs hs failed0) =
     failed0 @ filter (\<lambda>c. \<not> ok c) cs"
  by (induction cs arbitrary: hs failed0) simp_all

lemma broadcastHTTPStream_loop_wire:
  "distinct cs \<Longrightarrow>
     wire (fst (broadcastHTTPStream_loop ok fl data cs hs failed0)) c =
       wire hs c @ (if c \<in> set cs \<and> ok c
                    then [Write data] @ (if fl c then [Flush] else []) else [])"
proof (induction cs arbitrary: hs failed0)
  case Nil
  then show ?case by simp
next
  case (Cons a cs)
  then have d: "distinct cs" and a: "a \<notin> set cs" by simp_all
  show ?case
  proof (cases "ok a")
    case False
    then show ?thesis using Cons.IH [OF d] by auto
  next
    case True
    let ?hs = "http_Flush fl a (http_Write ok a data hs)"
    have w: "wire ?hs c =
        (if c = a then wire hs a @ [Write data] @ (if fl a then [Flush] else []) else wire hs c)"
      using True by (simp add: http_Flush_wire http_Write_def)
    have "wire (fst (broadcastHTTPStream_loop ok fl data (a # cs) hs failed0)) c =
        wire (fst (broadcastHTTPStream_loop ok fl data cs ?hs failed0)) c"
      using True by simp
    also have "\<dots> = wire ?hs c @ (if c \<in> set cs \<and> ok c
                    then [Write data] @ (if fl c then [Flush] else []) else [])"
      by (rule Cons.IH [OF d])
    finally show ?thesis using w a True by (cases "c = a") simp_all
  qed
qed

lemma broadcastHTTPStream_fields [simp]:
  "config (fst (broadcastHTTPStream ok fl data hs)) = config hs"
  "streamClients (fst (broadcastHTTPStream ok fl data hs)) = streamClients hs"
  "audioBuffer (fst (broadcastHTTPStream ok fl data hs)) = audioBuffer hs"
  "bufferSize (fst (broadcastHTTPStream ok fl data hs)) = bufferSize hs"
  by (simp_all add: broadcastHTTPStream_def split_beta)

lemma broadcastHTTPStream_wire:
  assumes "distinct (streamClients hs)"
  shows "wire (fst (broadcastHTTPStream ok fl data hs)) c =
     wire hs c @ (if c \<in> set (streamClients hs) \<and> ok c
                  then [Write data] @ (if fl c then [Flush] else []) else [])"
  using broadcastHTTPStream_loop_wire [OF assms, of ok fl data hs "[]" c]
  by (simp add: broadcastHTTPStream_def split_beta)

lemma bufferAudioData_fields [simp]:
  "config (bufferAudioData d hs) = config hs"
  "streamClients (bufferAudioData d hs) = streamClients hs"
  "bufferSize (bufferAudioData d hs) = bufferSize hs"
  "wire (bufferAudioData d hs) = wire hs"
  by (simp_all add: bufferAudioData_def Let_def)

lemma bufferAudioData_audioBuffer:
  "audioBuffer (bufferAudioData d hs) =
     drop (length (audioBuffer hs) + 1 - bufferSize hs) (audioBuffer hs @ [d])"
  by (simp add: bufferAudioData_def Let_def)

lemma HTTPServer_Broadcast_fields:
  "config (fst (HTTPServer_Broadcast ok fl d hs)) = config hs"
  "streamClients (fst (HTTPServer_Broadcast ok fl d hs)) = streamClients hs"
  "bufferSize (fst (HTTPServer_Broadcast ok fl d hs)) = bufferSize hs"
  "audioBuffer (fst (HTTPServer_Broadcast ok fl d hs)) =
     drop (length (audioBuffer hs) + 1 - bufferSize hs) (audioBuffer hs @ [d])"
  by (simp_all add: HTTPServer_Broadcast_def split_beta bufferAudioData_audioBuffer)

lemma HTTPServer_Broadcast_wire:
  assumes "distinct (streamClients hs)"
  shows "wire (fst (HTTPServer_Broadcast ok fl d hs)) c =
     wire hs c @ (if c \<in> set (streamClients hs) \<and> ok c
                  then [Write d] @ (if fl c then [Flush] else []) else [])"
  using broadcastHTTPStream_wire [OF assms, of ok fl d c]
  by (simp add: HTTPServer_Broadcast_def split_beta)

lemma dispatch_frames_snoc:
  "dispatch_frames ok fl (fs @ [d]) hs =
     fst (HTTPServer_Broadcast ok fl d (dispatch_frames ok fl fs hs))"
  by (simp add: dispatch_frames_def)

lemma dispatch_frames_fields:
  "config (dispatch_frames ok fl fs hs) = config hs"
  "streamClients (dispatch_frames ok fl fs hs) = streamClients hs"
  "bufferSize (dispatch_frames ok fl fs hs) = bufferSize hs"
proof (induction fs rule: rev_induct)
  case Nil
  {
    case 1 show ?case by (simp add: dispatch_frames_def)
  next
    case 2 show ?case by (simp add: dispatch_frames_def)
  next
    case 3 show ?case by (simp add: dispatch_frames_def)
  }
next
  case (snoc d fs)
  {
    case 1 show ?case using snoc by (simp add: dispatch_frames_snoc HTTPServer_Broadcast_fields)
  next
    case 2 show ?case using snoc by (simp add: dispatch_frames_snoc HTTPServer_Broadcast_fields)
  next
    case 3 show ?case using snoc by (simp add: dispatch_frames_snoc HTTPServer_Broadcast_fields)
  }
qed

lemma drop_last_n_snoc:
  "drop (length (drop (length xs - n) xs) + 1 - n) (drop (length xs - n) xs @ [d]) =
     drop (length (xs @ [d]) - n) (xs @ [d])"
  by (cases "length xs \<le> n") (auto simp: Suc_diff_le)

lemma dispatch_frames_audioBuffer:
  assumes "length (audioBuffer hs) \<le> bufferSize hs"
  shows "audioBuffer (dispatch_frames ok fl fs hs) =
     drop (length (audioBuffer hs @ fs) - bufferSize hs) (audioBuffer hs @ fs)"
proof (induction fs rule: rev_induct)
  case Nil
  then show ?case using assms by (simp add: dispatch_frames_def)
next
  case (snoc d fs)
  show ?case
    unfolding dispatch_frames_snoc HTTPServer_Broadcast_fields dispatch_frames_fields snoc
    using drop_last_n_snoc [of "audioBuffer hs @ fs" "bufferSize hs" d]
    by simp
qed

lemma dispatch_frames_wire_no_clients:
  "streamClients hs = [] \<Longrightarrow> wire (dispatch_frames ok fl fs hs) = wire hs"
proof (induction fs rule: rev_induct)
  case Nil
  then show ?case by (simp add: dispatch_frames_def)
next
  case (snoc d fs)
  have "streamClients (dispatch_frames ok fl fs hs) = []"
    using snoc.prems by (simp add: dispatch_frames_fields)
  then have "distinct (streamClients (dispatch_frames ok fl fs hs))" by simp
  from HTTPServer_Broadcast_wire [OF this, of ok fl d]
  show ?case using snoc by (simp add: dispatch_frames_snoc dispatch_frames_fields fun_eq_iff)
qed

lemma NewHTTPServer_fields [simp]:
  "config (NewHTTPServer c) = c"
  "streamClients (NewHTTPServer c) = []"
  "audioBuffer (NewHTTPServer c) = []"
  "bufferSize (NewHTTPServer c) = 50"
  "wire (NewHTTPServer c) = (\<lambda>_. [])"
  by (simp_all add: NewHTTPServer_def)

text \<open>
  C5. The capacity is 50 from NewHTTPServer on and no dispatch changes it. After any
  dispatch, whatever clients are registered, the backlog is the old backlog with the new
  frame appended, cut to its last 50 entries: its length is at most 50 and its last entry
  is the frame just dispatched. After dispatching the frames \<open>fs\<close> to a new server the
  backlog is the last 50 of \<open>fs\<close> in order; for 51 frames that is frames 2..51.
\<close>

theorem backlog_ring_buffer:
  "bufferSize (NewHTTPServer c) = 50
   \<and> bufferSize (fst (HTTPServer_Broadcast ok fl d hs)) = bufferSize hs
   \<and> (bufferSize hs = 50 \<longrightarrow>
        length (audioBuffer (fst (HTTPServer_Broadcast ok fl d hs))) \<le> 50
        \<and> audioBuffer (fst (HTTPServer_Broadcast ok fl d hs)) =
            drop (length (audioBuffer hs) + 1 - 50) (audioBuffer hs @ [d])
        \<and> last (audioBuffer (fst (HTTPServer_Broadcast ok fl d hs))) = d)
   \<and> audioBuffer (dispatch_frames ok fl fs (NewHTTPServer c)) = drop (length fs - 50) fs
   \<and> (length fs = 51 \<longrightarrow>
        audioBuffer (dispatch_frames ok fl fs (NewHTTPServer c)) = tl fs
        \<and> length (audioBuffer (dispatch_frames ok fl fs (NewHTTPServer c))) = 50)"
proof (intro conjI impI)
  show "bufferSize (NewHTTPServer c) = 50" by simp
  show "bufferSize (fst (HTTPServer_Broadcast ok fl d hs)) = bufferSize hs"
    by (simp add: HTTPServer_Broadcast_fields)
  show all: "audioBuffer (dispatch_frames ok fl fs (NewHTTPServer c)) = drop (length fs - 50) fs"
    using dispatch_frames_audioBuffer [of "NewHTTPServer c" ok fl fs] by simp
  {
    assume "length fs = 51"
    then have "drop (length fs - 50) fs = tl fs" by (simp add: drop_Suc)
    then show tl: "audioBuffer (dispatch_frames ok fl fs (NewHTTPServer c)) = tl fs"
      using all by simp
    show "length (audioBuffer (dispatch_frames ok fl fs (NewHTTPServer c))) = 50"
      using tl \<open>length fs = 51\<close> by simp
  }
  {
    assume b: "bufferSize hs = 50"
    show eq: "audioBuffer (fst (HTTPServer_Broadcast ok fl d hs)) =
            drop (length (audioBuffer hs) + 1 - 50) (audioBuffer hs @ [d])"
      using b by (simp add: HTTPServer_Broadcast_fields)
    show "length (audioBuffer (fst (HTTPServer_Broadcast ok fl d hs))) \<le> 50"
      unfolding eq by simp
    have "length (audioBuffer hs) + 1 - 50 < length (audioBuffer hs @ [d])" by simp
    then show "last (audioBuffer (fst (HTTPServer_Broadcast ok fl d hs))) = d"
      unfolding eq by (simp only: last_drop last_snoc)
  }
qed

text \<open>
  51 frames, the first one marked: the backlog is the other 50.
\<close>

theorem backlog_ring_buffer_witness:
  "length ([1] # replicate 50 [2 :: byte]) = 51
   \<and> audioBuffer (dispatch_frames every_client every_client ([1] # replicate 50 [2])
        (NewHTTPServer setDefaults)) = replicate 50 [2]
   \<and> audioBuffer (fst (HTTPServer_Broadcast every_client every_client [3]
        (NewHTTPServer setDefaults))) = [[3]]"
  using backlog_ring_buffer [of setDefaults every_client every_client "[3]" "NewHTTPServer setDefaults"
          "[1] # replicate 50 [2]"]
  by simp

text \<open>A dispatch reaches the registered clients only.\<close>

lemma dispatch_frames_wire_other:
  assumes "distinct (streamClients hs)" and "w \<notin> set (streamClients hs)"
  shows "wire (dispatch_frames ok fl fs hs) w = wire hs w"
proof (induction fs rule: rev_induct)
  case Nil
  then show ?case by (simp add: dispatch_frames_def)
next
  case (snoc d fs)
  have "distinct (streamClients (dispatch_frames ok fl fs hs))"
    using assms(1) by (simp add: dispatch_frames_fields)
  from HTTPServer_Broadcast_wire [OF this, of ok fl d w]
  show ?case using snoc assms(2) by (simp add: dispatch_frames_snoc dispatch_frames_fields)
qed

lemma handleWavStream_interleaved_Nil:
  "handleWavStream_interleaved ok fl w [] hs = handleWavStream ok fl w hs"
  by (simp add: handleWavStream_interleaved_def handleWavStream_def dispatch_frames_def Let_def)

lemma handleWavStream_interleaved_fields:
  "config (handleWavStream_interleaved ok fl w ds hs) = config hs"
  "streamClients (handleWavStream_interleaved ok fl w ds hs) = List.insert w (streamClients hs)"
  "bufferSize (handleWavStream_interleaved ok fl w ds hs) = bufferSize hs"
  by (simp_all add: handleWavStream_interleaved_def addStreamClient_def writeWAVHeader_def Let_def
        dispatch_frames_fields)

lemma handleWavStream_interleaved_wire:
  assumes "distinct (streamClients hs)" and "w \<notin> set (streamClients hs)"
  shows "wire (handleWavStream_interleaved ok fl w ds hs) w =
     wire hs w
        @ (if ok w then map Write (wavHeaderWrites (config hs)) else [])
        @ (if fl w then [Flush] else [])
        @ (if ok w then map Write (audioBuffer hs) else [])
        @ (if fl w then [Flush] else [])"
proof -
  let ?hs = "sendBufferedAudio ok fl w (http_Flush fl w (writeWAVHeader ok w hs))"
  have "wire (handleWavStream_interleaved ok fl w ds hs) w = wire (dispatch_frames ok fl ds ?hs) w"
    by (simp add: handleWavStream_interleaved_def addStreamClient_def Let_def)
  also have "\<dots> = wire ?hs w"
    using assms by (intro dispatch_frames_wire_other) (simp_all add: writeWAVHeader_def)
  also have "\<dots> = wire (handleWavStream ok fl w hs) w"
    by (simp add: handleWavStream_def addStreamClient_def Let_def)
  finally show ?thesis by (simp add: handleWavStream_wire)
qed

lemma handleWavStream_interleaved_audioBuffer:
  assumes "length (audioBuffer hs) \<le> bufferSize hs"
  shows "audioBuffer (handleWavStream_interleaved ok fl w ds hs) =
     drop (length (audioBuffer hs @ ds) - bufferSize hs) (audioBuffer hs @ ds)"
proof -
  let ?hs = "sendBufferedAudio ok fl w (http_Flush fl w (writeWAVHeader ok w hs))"
  have f: "audioBuffer ?hs = audioBuffer hs" "bufferSize ?hs = bufferSize hs"
    by (simp_all add: writeWAVHeader_def)
  have "audioBuffer (handleWavStream_interleaved ok fl w ds hs) =
      audioBuffer (dispatch_frames ok fl ds ?hs)"
    by (simp add: handleWavStream_interleaved_def addStreamClient_def Let_def)
  also have "\<dots> = drop (length (audioBuffer ?hs @ ds) - bufferSize ?hs) (audioBuffer ?hs @ ds)"
    using assms by (intro dispatch_frames_audioBuffer) (simp only: f)
  finally show ?thesis by (simp only: f)
qed

text \<open>
  C3 (amended). For a client whose writes succeed: sendBufferedAudio writes the whole
  backlog, oldest first, and flushes once, after the last entry, if the writer can flush;
  the set of live clients is the same before and after it. handleWavStream writes the
  header, flushes, replays the backlog in that way and only then registers the client: for
  a client not yet registered, the frames dispatched between the replay and the
  registration enter the backlog and do not reach the client, and the first frame dispatched
  after the registration does. Hence a client that connects after \<open>N \<le> 50\<close> frames were
  dispatched to a new server receives the header, then exactly those frames in order, and
  the next live frame follows them.
\<close>

theorem late_joiner_replay:
  assumes "writeOk w"
  shows
   "wire (sendBufferedAudio writeOk isFlusher w hs) w =
      wire hs w @ map Write (audioBuffer hs) @ (if isFlusher w then [Flush] else [])
    \<and> streamClients (sendBufferedAudio writeOk isFlusher w hs) = streamClients hs
    \<and> handleWavStream_interleaved writeOk isFlusher w [] hs = handleWavStream writeOk isFlusher w hs
    \<and> (w \<notin> set (streamClients hs) \<and> distinct (streamClients hs) \<longrightarrow>
        wire (handleWavStream_interleaved writeOk isFlusher w between hs) w =
          wire hs w @ map Write (wavHeaderWrites (config hs)) @ (if isFlusher w then [Flush] else [])
                   @ map Write (audioBuffer hs) @ (if isFlusher w then [Flush] else [])
        \<and> streamClients (handleWavStream_interleaved writeOk isFlusher w between hs) =
          List.insert w (streamClients hs)
        \<and> wire (fst (HTTPServer_Broadcast writeOk isFlusher d
                  (handleWavStream_interleaved writeOk isFlusher w between hs))) w =
          wire hs w @ map Write (wavHeaderWrites (config hs)) @ (if isFlusher w then [Flush] else [])
                   @ map Write (audioBuffer hs) @ (if isFlusher w then [Flush] else [])
                   @ [Write d] @ (if isFlusher w then [Flush] else []))
    \<and> (length (audioBuffer hs) \<le> bufferSize hs \<longrightarrow>
        audioBuffer (handleWavStream_interleaved writeOk isFlusher w between hs) =
          drop (length (audioBuffer hs @ between) - bufferSize hs) (audioBuffer hs @ between))
    \<and> (length fs \<le> 50 \<longrightarrow>
        wire (handleWavStream_interleaved writeOk isFlusher w between
                (dispatch_frames writeOk isFlusher fs (NewHTTPServer c))) w =
          map Write (wavHeaderWrites c) @ (if isFlusher w then [Flush] else [])
            @ map Write fs @ (if isFlusher w then [Flush] else [])
        \<and> wire (fst (HTTPServer_Broadcast writeOk isFlusher d
                  (handleWavStream_interleaved writeOk isFlusher w between
                     (dispatch_frames writeOk isFlusher fs (NewHTTPServer c))))) w =
          map Write (wavHeaderWrites c) @ (if isFlusher w then [Flush] else [])
            @ map Write fs @ (if isFlusher w then [Flush] else [])
            @ [Write d] @ (if isFlusher w then [Flush] else []))"
proof -
  let ?F = "if isFlusher w then [Flush] else []"
  have general:
    "wire (handleWavStream_interleaved writeOk isFlusher w between h) w =
          wire h w @ map Write (wavHeaderWrites (config h)) @ ?F @ map Write (audioBuffer h) @ ?F
     \<and> streamClients (handleWavStream_interleaved writeOk isFlusher w between h) =
          List.insert w (streamClients h)
     \<and> wire (fst (HTTPServer_Broadcast writeOk isFlusher d
                  (handleWavStream_interleaved writeOk isFlusher w between h))) w =
          wire h w @ map Write (wavHeaderWrites (config h)) @ ?F @ map Write (audioBuffer h) @ ?F
                   @ [Write d] @ ?F"
    if h: "w \<notin> set (streamClients h)" "distinct (streamClients h)" for h
  proof -
    let ?h2 = "handleWavStream_interleaved writeOk isFlusher w between h"
    have w2: "wire ?h2 w =
          wire h w @ map Write (wavHeaderWrites (config h)) @ ?F @ map Write (audioBuffer h) @ ?F"
      using handleWavStream_interleaved_wire [OF h(2) h(1), of writeOk isFlusher between] assms
      by simp
    have s2: "streamClients ?h2 = List.insert w (streamClients h)"
      by (rule handleWavStream_interleaved_fields)
    have "distinct (streamClients ?h2)" "w \<in> set (streamClients ?h2)"
      using h(2) by (simp_all add: s2)
    from HTTPServer_Broadcast_wire [OF this(1), of writeOk isFlusher d w] this(2) assms w2
    have "wire (fst (HTTPServer_Broadcast writeOk isFlusher d ?h2)) w =
          wire h w @ map Write (wavHeaderWrites (config h)) @ ?F @ map Write (audioBuffer h) @ ?F
                   @ [Write d] @ ?F"
      by simp
    then show ?thesis using w2 s2 by simp
  qed
  have p1: "wire (sendBufferedAudio writeOk isFlusher w hs) w =
      wire hs w @ map Write (audioBuffer hs) @ ?F"
    using assms by (simp add: sendBufferedAudio_wire)
  have p2: "streamClients (sendBufferedAudio writeOk isFlusher w hs) = streamClients hs"
    by simp
  note p3 = handleWavStream_interleaved_Nil [of writeOk isFlusher w hs]
  have p5: "audioBuffer (handleWavStream_interleaved writeOk isFlusher w between hs) =
          drop (length (audioBuffer hs @ between) - bufferSize hs) (audioBuffer hs @ between)"
    if "length (audioBuffer hs) \<le> bufferSize hs"
    using that by (rule handleWavStream_interleaved_audioBuffer)
  have p6:
    "wire (handleWavStream_interleaved writeOk isFlusher w between
                (dispatch_frames writeOk isFlusher fs (NewHTTPServer c))) w =
          map Write (wavHeaderWrites c) @ ?F @ map Write fs @ ?F
     \<and> wire (fst (HTTPServer_Broadcast writeOk isFlusher d
                  (handleWavStream_interleaved writeOk isFlusher w between
                     (dispatch_frames writeOk isFlusher fs (NewHTTPServer c))))) w =
          map Write (wavHeaderWrites c) @ ?F @ map Write fs @ ?F @ [Write d] @ ?F"
    if len: "length fs \<le> 50"
  proof -
    let ?hs1 = "dispatch_frames writeOk isFlusher fs (NewHTTPServer c)"
    have buf: "audioBuffer ?hs1 = fs"
      using dispatch_frames_audioBuffer [of "NewHTTPServer c" writeOk isFlusher fs] len by simp
    have w1: "wire ?hs1 = (\<lambda>_. [])"
      using dispatch_frames_wire_no_clients [of "NewHTTPServer c" writeOk isFlusher fs] by simp
    have c1: "config ?hs1 = c" "streamClients ?hs1 = []"
      by (simp_all add: dispatch_frames_fields)
    have "w \<notin> set (streamClients ?hs1)" "distinct (streamClients ?hs1)"
      by (simp_all add: c1)
    from general [OF this] show ?thesis by (simp add: buf w1 c1)
  qed
  show ?thesis
    using p1 p2 p3 general [of hs] p5 p6 by blast
qed

text \<open>
  Three frames dispatched, then a client connects, frame 9 is dispatched between the
  replay and the registration, then frame 4: after the header (13 writes and a flush) the
  client has frames 1, 2, 3, one flush, then frame 4. Frame 9 is in the backlog and was
  not sent to the client.
\<close>

theorem late_joiner_replay_witness:
  "every_client 0
   \<and> wire (sendBufferedAudio every_client every_client 0
      (dispatch_frames every_client every_client [[1], [2], [3]] (NewHTTPServer setDefaults))) 0
     = [Write [1], Write [2], Write [3], Flush]
   \<and> drop 14 (wire (fst (HTTPServer_Broadcast every_client every_client [4]
        (handleWavStream_interleaved every_client every_client 0 [[9]]
          (dispatch_frames every_client every_client [[1], [2], [3]] (NewHTTPServer setDefaults))))) 0)
     = [Write [1], Write [2], Write [3], Flush, Write [4], Flush]
   \<and> audioBuffer (handleWavStream_interleaved every_client every_client 0 [[9]]
          (dispatch_frames every_client every_client [[1], [2], [3]] (NewHTTPServer setDefaults)))
     = [[1], [2], [3], [9]]"
proof -
  have buf: "audioBuffer (dispatch_frames every_client every_client [[1], [2], [3]]
      (NewHTTPServer setDefaults)) = [[1], [2], [3]]"
    using dispatch_frames_audioBuffer
      [of "NewHTTPServer setDefaults" every_client every_client "[[1], [2], [3]]"]
    by simp
  have w1: "wire (dispatch_frames every_client every_client [[1], [2], [3]]
      (NewHTTPServer setDefaults)) = (\<lambda>_. [])"
    using dispatch_frames_wire_no_clients
      [of "NewHTTPServer setDefaults" every_client every_client "[[1], [2], [3]]"]
    by simp
  have len: "length (wavHeaderWrites setDefaults) = 13"
    by (simp add: wavHeaderWrites_def Let_def)
  from late_joiner_replay [of every_client 0 every_client
      "dispatch_frames every_client every_client [[1], [2], [3]] (NewHTTPServer setDefaults)"
      "[[9]]" "[4]" "[[1], [2], [3]]" setDefaults]
  show ?thesis by (simp add: buf w1 len every_client_def dispatch_frames_fields)
qed

text \<open>
  C3 as stated fails: with two frames in the backlog the replay is two writes and one
  flush, not a flush after each entry.
\<close>

theorem flush_after_each_entry_counterexample:
  "wire (sendBufferedAudio every_client every_client 0
      (dispatch_frames every_client every_client [[1], [2]] (NewHTTPServer setDefaults))) 0
     = [Write [1], Write [2], Flush]
   \<and> wire (sendBufferedAudio every_client every_client 0
      (dispatch_frames every_client every_client [[1], [2]] (NewHTTPServer setDefaults))) 0
     \<noteq> [Write [1], Flush, Write [2], Flush]"
proof -
  have buf: "audioBuffer (dispatch_frames every_client every_client [[1], [2]]
      (NewHTTPServer setDefaults)) = [[1], [2]]"
    using dispatch_frames_audioBuffer
      [of "NewHTTPServer setDefaults" every_client every_client "[[1], [2]]"]
    by simp
  have w1: "wire (dispatch_frames every_client every_client [[1], [2]]
      (NewHTTPServer setDefaults)) = (\<lambda>_. [])"
    using dispatch_frames_wire_no_clients
      [of "NewHTTPServer setDefaults" every_client every_client "[[1], [2]]"]
    by simp
  show ?thesis by (simp add: sendBufferedAudio_wire buf w1 every_client_def)
qed

lemma mask8: "(0xff :: 'a::len word) = mask 8"
  by (simp add: mask_eq_exp_minus_1)

lemma go_byte_and_ff: "go_byte ((w :: go_int) AND 0xff) = go_byte w"
  unfolding go_byte_def mask8
  by (rule bit_word_eqI) (auto simp: bit_simps)

lemma go_byte_go_int: "go_byte (w :: go_int) = word_of_int (sint w)"
  unfolding go_byte_def
  by (rule bit_word_eqI) (auto simp: bit_simps min_def)

lemma go_byte_shift:
  assumes "k \<le> 56"
  shows "go_byte (signed_drop_bit k (w :: go_int) AND 0xff) = word_of_int (sint w div 2 ^ k)"
  unfolding go_byte_def mask8
proof (rule bit_word_eqI)
  fix n assume "n < LENGTH(8)"
  then have n: "n < 8" by simp
  show "bit (ucast (signed_drop_bit k w AND mask 8) :: byte) n =
        bit (word_of_int (sint w div 2 ^ k) :: byte) n"
    using n assms
    by (cases "k + n = 63") (auto simp: bit_simps min_def simp flip: drop_bit_eq_div)
qed

lemma le32_spec: "le32 w = spec_u32le (sint w)"
proof -
  have "go_byte (signed_drop_bit 8 w AND 0xff) = word_of_int (sint w div 256)"
       "go_byte (signed_drop_bit 16 w AND 0xff) = word_of_int (sint w div 65536)"
       "go_byte (signed_drop_bit 24 w AND 0xff) = word_of_int (sint w div 16777216)"
    using go_byte_shift [of 8 w] go_byte_shift [of 16 w] go_byte_shift [of 24 w]
    by simp_all
  moreover have "go_byte (w AND 0xff) = word_of_int (sint w)"
    by (subst go_byte_and_ff) (rule go_byte_go_int)
  ultimately show ?thesis
    by (simp only: le32_def spec_u32le_def)
qed

lemma byte_pair_spec:
  assumes "0 \<le> sint (w :: go_int)" "sint w < 256"
  shows "[go_byte w, 0] = spec_u16le (sint w)"
proof -
  have "sint w div 256 = 0" using assms by simp
  then show ?thesis by (simp only: spec_u16le_def go_byte_go_int) simp
qed

lemma sdiv_8: "0 \<le> x \<Longrightarrow> (x * 16) sdiv 8 = x * (2 :: int)"
  by (cases "x = 0") (simp_all add: signed_divide_int_def)

lemma sint_byteRate:
  assumes "0 \<le> t" "t < 2 ^ 32" "0 \<le> sint (ch :: go_int)" "sint ch \<le> 127"
  shows "sint (go_div (word_of_int t * ch * 16) 8) = t * sint ch * 2"
proof -
  have "t * sint ch \<le> 2 ^ 32 * 127"
    using assms by (intro mult_mono) simp_all
  then have b: "0 \<le> t * sint ch" "t * sint ch * 16 < 2 ^ 63"
    using assms by simp_all
  have eq: "(word_of_int t * ch * 16 :: go_int) = word_of_int (t * sint ch * 16)"
    by simp
  have s: "sint (word_of_int t * ch * 16 :: go_int) = t * sint ch * 16"
    by (subst eq, rule sint_go_int_of_int) (use b in simp_all)
  have d: "(t * sint ch * 16) sdiv sint (8 :: go_int) = t * sint ch * 2"
    using sdiv_8 [OF b(1)] by simp
  have "go_div (word_of_int t * ch * 16) 8 = word_of_int (t * sint ch * 2)"
    unfolding go_div_def s d ..
  moreover have "sint (word_of_int (t * sint ch * 2) :: go_int) = t * sint ch * 2"
    by (rule sint_go_int_of_int) (use b in simp_all)
  ultimately show ?thesis by simp
qed

lemma sint_blockAlign:
  assumes "0 \<le> sint (ch :: go_int)" "sint ch \<le> 127"
  shows "sint (go_div (ch * 16) 8) = sint ch * 2"
proof -
  have eq: "(ch * 16 :: go_int) = word_of_int (sint ch * 16)" by simp
  have s: "sint (ch * 16 :: go_int) = sint ch * 16"
    by (subst eq, rule sint_go_int_of_int) (use assms in simp_all)
  have d: "(sint ch * 16) sdiv sint (8 :: go_int) = sint ch * 2"
    using sdiv_8 [OF assms(1)] by simp
  have "go_div (ch * 16) 8 = word_of_int (sint ch * 2)"
    unfolding go_div_def s d ..
  moreover have "sint (word_of_int (sint ch * 2) :: go_int) = sint ch * 2"
    by (rule sint_go_int_of_int) (use assms in simp_all)
  ultimately show ?thesis by simp
qed

lemma wav_header_bytes:
  assumes ch: "1 \<le> sint (Channels (Audio c))" "sint (Channels (Audio c)) \<le> 127"
      and t: "0 \<le> float_trunc (SampleRate (Audio c))"
             "float_trunc (SampleRate (Audio c)) * sint (Channels (Audio c)) * 2 < 2 ^ 32"
  shows "concat (wavHeaderWrites c) =
           spec_wav_header (sint (Channels (Audio c))) (float_trunc (SampleRate (Audio c)))"
proof -
  let ?ch = "Channels (Audio c)"
  let ?t = "float_trunc (SampleRate (Audio c))"
  have "?t * 1 \<le> ?t * (sint ?ch * 2)"
    using ch t(1) by (intro mult_left_mono) simp_all
  then have t32: "?t < 2 ^ 32" using t(2) by (simp add: mult.assoc)
  have st: "sint (go_int_of_float (SampleRate (Audio c))) = ?t"
    unfolding go_int_of_float_def using t(1) t32 by (intro sint_go_int_of_int) simp_all
  have ch0: "0 \<le> sint ?ch" using ch by simp
  have sr: "le32 (go_int_of_float (SampleRate (Audio c))) = spec_u32le ?t"
    by (simp only: le32_spec st)
  have br: "le32 (go_div (go_int_of_float (SampleRate (Audio c)) * ?ch * 16) 8) =
      spec_u32le (?t * sint ?ch * 2)"
    unfolding le32_spec go_int_of_float_def
    by (simp only: sint_byteRate [OF t(1) t32 ch0 ch(2)])
  have chb: "[go_byte ?ch, 0] = spec_u16le (sint ?ch)"
    using ch by (intro byte_pair_spec) simp_all
  have ba: "sint (go_div (?ch * 16) 8) = sint ?ch * 2"
    by (rule sint_blockAlign [OF ch0 ch(2)])
  have bab: "[go_byte (go_div (?ch * 16) 8), 0] = spec_u16le (sint ?ch * 2)"
    using byte_pair_spec [of "go_div (?ch * 16) 8"] ch unfolding ba by simp
  have lits: "[0xff, 0xff, 0xff, 0xff] = spec_u32le (2 ^ 32 - 1)"
    "[16, 0, 0, 0] = spec_u32le 16" "[1, 0] = spec_u16le 1"
    "[go_byte (16 :: go_int), 0] = spec_u16le 16"
    by (simp_all add: spec_u32le_def spec_u16le_def go_byte_def)
  show ?thesis
    unfolding wavHeaderWrites_def Let_def spec_wav_header_def
    by (simp only: concat.simps append_Nil2 sr br chb bab lits append_assoc)
qed

lemma length_wav_header: "length (concat (wavHeaderWrites c)) = 44"
  by (simp add: wavHeaderWrites_def Let_def le32_def)

text \<open>
  C9 (amended). For a channel count \<open>C\<close> from 1 to 127 and a sample rate whose integer part
  \<open>S\<close> is not negative, with \<open>S \<times> C \<times> 2\<close> below \<open>2^32\<close>, the 44 bytes writeWAVHeader writes
  are the specification's header for \<open>C\<close> and \<open>S\<close>: RIFF, size placeholder \<open>0xFFFFFFFF\<close>, WAVE,
  a 16-byte PCM fmt chunk (format 1, \<open>C\<close>, \<open>S\<close>, byte rate \<open>S \<times> C \<times> 2\<close>, block align \<open>C \<times> 2\<close>,
  16 bits), data, size placeholder \<open>0xFFFFFFFF\<close>. On connect these writes come first and
  once, followed by a flush, before any audio.
\<close>

theorem wav_header_on_connect:
  "(1 \<le> sint (Channels (Audio c)) \<and> sint (Channels (Audio c)) \<le> 127
      \<and> 0 \<le> float_trunc (SampleRate (Audio c))
      \<and> float_trunc (SampleRate (Audio c)) * sint (Channels (Audio c)) * 2 < 2 ^ 32 \<longrightarrow>
      concat (wavHeaderWrites c) =
        spec_wav_header (sint (Channels (Audio c))) (float_trunc (SampleRate (Audio c))))
   \<and> length (concat (wavHeaderWrites c)) = 44
   \<and> (writeOk w \<and> isFlusher w \<longrightarrow>
        wire (handleWavStream writeOk isFlusher w hs) w =
          wire hs w @ map Write (wavHeaderWrites (config hs)) @ [Flush]
                   @ map Write (audioBuffer hs) @ [Flush])"
  using wav_header_bytes [of c] length_wav_header [of c]
  by (simp add: handleWavStream_wire)

text \<open>
  The header of the default configuration (48000 Hz, 2 channels).
\<close>

theorem wav_header_on_connect_witness:
  "sint (Channels (Audio setDefaults)) = 2
   \<and> float_trunc (SampleRate (Audio setDefaults)) = 48000
   \<and> concat (wavHeaderWrites setDefaults) =
       [82, 73, 70, 70, 255, 255, 255, 255, 87, 65, 86, 69, 102, 109, 116, 32,
        16, 0, 0, 0, 1, 0, 2, 0, 128, 187, 0, 0, 0, 238, 2, 0, 4, 0, 16, 0,
        100, 97, 116, 97, 255, 255, 255, 255]"
proof -
  have ch: "sint (Channels (Audio setDefaults)) = 2"
    and t: "float_trunc (SampleRate (Audio setDefaults)) = 48000"
    by (simp_all add: setDefaults_def float_trunc_def)
  have "spec_wav_header 2 48000 =
       [82, 73, 70, 70, 255, 255, 255, 255, 87, 65, 86, 69, 102, 109, 116, 32,
        16, 0, 0, 0, 1, 0, 2, 0, 128, 187, 0, 0, 0, 238, 2, 0, 4, 0, 16, 0,
        100, 97, 116, 97, 255, 255, 255, 255]"
    by (simp add: spec_wav_header_def spec_u32le_def spec_u16le_def)
  with wav_header_on_connect [of setDefaults] show ?thesis
    by (simp add: ch t)
qed

text \<open>
  C9 as stated fails for a channel count that does not fit one byte: with 300 channels
  the channel field is written as 44, 0 (not 44, 1) and the block align as 88, 0 (not
  88, 2), because only the low byte of each is written. A configured sample rate of
  44100.5 Hz is written as 44100. At \<open>2^31\<close> Hz and 2 channels the byte rate \<open>2^33\<close> does not
  fit its field, which is written as 0.
\<close>

theorem wav_header_300_channels_counterexample:
  "wavHeaderWrites (setDefaults\<lparr>Audio := (Audio setDefaults)\<lparr>Channels := 300\<rparr>\<rparr>) ! 6 = [44, 0]
   \<and> spec_u16le 300 = [44, 1]
   \<and> wavHeaderWrites (setDefaults\<lparr>Audio := (Audio setDefaults)\<lparr>Channels := 300\<rparr>\<rparr>) ! 9 = [88, 0]
   \<and> spec_u16le (300 * 2) = [88, 2]
   \<and> wavHeaderWrites (setDefaults\<lparr>Audio := (Audio setDefaults)\<lparr>SampleRate := 44100.5\<rparr>\<rparr>) ! 7
       = spec_u32le 44100
   \<and> wavHeaderWrites
       (setDefaults\<lparr>Audio := (Audio setDefaults)\<lparr>SampleRate := 2147483648\<rparr>\<rparr>) ! 8
       = [0, 0, 0, 0]"
  by (simp add: wavHeaderWrites_def Let_def setDefaults_def go_byte_def go_div_def
        signed_divide_int_def spec_u16le_def spec_u32le_def le32_def go_int_of_float_def
        float_trunc_def)

end
